theory Spec2Isabelle
  imports Main
begin

section \<open>The route registry of \<^verbatim>\<open>src/lib/router.ts\<close>\<close>

text \<open>
  The module defines a class \<^verbatim>\<open>Route\<close> whose instances point at each other: a route
  holds a reference to its parent and an array of references to its children. The
  objects live in a heap, a list of records; a reference is an index into it and
  \<^verbatim>\<open>new\<close> appends. Arrays of routes are lists of references, taken by value.

  JavaScript getters that walk the parent links (\<^verbatim>\<open>fullName\<close>, \<^verbatim>\<open>fullPath\<close>,
  \<^verbatim>\<open>activePath\<close>, \<^verbatim>\<open>didCreateRoute\<close>) or the child arrays (\<^verbatim>\<open>allRoutes\<close>) do not
  return on a cyclic heap. They are partial functions into \<open>option\<close>, where \<open>None\<close>
  stands for a call that never returns. A thrown \<^verbatim>\<open>Error\<close> is a value \<open>Inl e\<close>.
\<close>

subsection \<open>Data\<close>

type_synonym ref = nat
type_synonym callback = nat

text \<open>
  Every \<^verbatim>\<open>throw\<close> of the module raises a plain \<^verbatim>\<open>Error\<close> with a message. The
  constructors tell the three throw sites apart and carry the message; \<open>TypeError\<close> is
  what the runtime raises on a property read of \<^verbatim>\<open>undefined\<close>.
\<close>

datatype error =
    ConflictError string
  | InvalidOperation string
  | InvalidArgument string
  | TypeError

text \<open>
  \<^verbatim>\<open>interface RouteDefinition { label; name; path?; routes?; meta? }\<close>. An absent
  \<^verbatim>\<open>routes\<close> and an empty one are treated alike by \<^verbatim>\<open>add\<close>, so the field is a list.
\<close>

datatype routeDefinition =
  RouteDefinition
    (def_label: string)
    (def_name: string)
    (def_path: "string option")
    (def_routes: "routeDefinition list")
    (def_meta: "(string \<times> string) list option")

text \<open>\<^verbatim>\<open>interface RouteOptions extends RouteInfo { routes?: Route[]; parent?: Route }\<close>\<close>

record routeOptions =
  cfg_label :: string
  cfg_name :: string
  cfg_path :: string
  cfg_meta :: "(string \<times> string) list option"
  cfg_routes :: "ref list option"
  cfg_parent :: "ref option"

text \<open>
  The fields of a \<^verbatim>\<open>Route\<close>. The private fields \<^verbatim>\<open>_activePath\<close>, \<^verbatim>\<open>_parent\<close>,
  \<^verbatim>\<open>_routes\<close> and \<^verbatim>\<open>_onNewRoute\<close> are \<open>priv_\<close>. A field that was never assigned
  is \<open>None\<close>. The initial listener \<^verbatim>\<open>() => {}\<close> does nothing, it is \<open>None\<close> too; a
  registered listener is an opaque identifier, and calling it is recorded in the
  store's \<open>calls\<close>.
\<close>

record route =
  label :: string
  name :: string
  path :: string
  meta :: "(string \<times> string) list"
  priv_activePath :: "string option"
  priv_parent :: "ref option"
  priv_routes :: "ref list"
  priv_onNewRoute :: "callback option"

record store =
  objs :: "route list"
  calls :: "(callback \<times> ref) list"

definition empty_store :: store where
  "empty_store = \<lparr>objs = [], calls = []\<rparr>"

subsection \<open>Derived names\<close>

text \<open>\<^verbatim>\<open>Array.prototype.join\<close>\<close>

fun join :: "string \<Rightarrow> string list \<Rightarrow> string" where
  "join sep [] = []"
| "join sep [x] = x"
| "join sep (x # y # ys) = x @ sep @ join sep (y # ys)"

text \<open>
  \<^verbatim>\<open>.filter(part => part && part !== "")\<close> on an array whose entries are strings or
  \<^verbatim>\<open>undefined\<close>.
\<close>

fun truthy_parts :: "string option list \<Rightarrow> string list" where
  "truthy_parts [] = []"
| "truthy_parts (None # parts) = truthy_parts parts"
| "truthy_parts (Some part # parts) =
     (if part \<noteq> [] then part # truthy_parts parts else truthy_parts parts)"

partial_function (option) fullName :: "route list \<Rightarrow> ref \<Rightarrow> string option" where
  "fullName h this =
     (case priv_parent (h ! this) of
        None \<Rightarrow> Some (join ''.'' (truthy_parts [None, Some (name (h ! this))]))
      | Some parent \<Rightarrow>
          Option.bind (fullName h parent)
            (\<lambda>pn. Some (join ''.'' (truthy_parts [Some pn, Some (name (h ! this))]))))"

partial_function (option) fullPath :: "route list \<Rightarrow> ref \<Rightarrow> string option" where
  "fullPath h this =
     (case priv_parent (h ! this) of
        None \<Rightarrow> Some (join [] (truthy_parts [None, Some (path (h ! this))]))
      | Some parent \<Rightarrow>
          Option.bind (fullPath h parent)
            (\<lambda>pp. Some (join [] (truthy_parts [Some pp, Some (path (h ! this))]))))"

declare fullName.simps [code]
declare fullPath.simps [code]

definition isDynamic :: "route list \<Rightarrow> ref \<Rightarrow> bool" where
  "isDynamic h this = (CHR '':'' \<in> set (path (h ! this)))"

subsection \<open>Matching\<close>

text \<open>\<^verbatim>\<open>str[i]\<close> is \<^verbatim>\<open>undefined\<close> past the end of the string.\<close>

definition char_at :: "string \<Rightarrow> nat \<Rightarrow> char option" where
  "char_at str i = (if i < length str then Some (str ! i) else None)"

definition tail :: "string \<Rightarrow> string" where
  "tail str = drop 1 str"

definition after :: "string \<Rightarrow> char \<Rightarrow> string" where
  "after str c =
     (if c \<in> set str then drop (length (takeWhile (\<lambda>x. x \<noteq> c) str) + 1) str else [])"

function match :: "string \<Rightarrow> string \<Rightarrow> bool" where
  "match dynamic fixed =
     (if length dynamic = 0 \<and> length fixed = 0 then True
      else if char_at dynamic 1 = Some CHR '':'' \<and> char_at fixed 1 = None then False
      else if char_at dynamic 0 = Some CHR '':'' \<and> length fixed = 0
        then match (after dynamic CHR ''/'') fixed
      else if char_at dynamic 0 = Some CHR '':'' \<and> char_at fixed 0 \<noteq> Some CHR ''/''
        then match dynamic (tail fixed)
      else if char_at dynamic 0 = Some CHR '':'' \<and> char_at fixed 0 = Some CHR ''/''
        then match (after dynamic CHR ''/'') (tail fixed)
      else if char_at dynamic 0 = char_at fixed 0
        then match (tail dynamic) (tail fixed)
      else False)"
  by pat_completeness auto
termination
proof (relation "measure (\<lambda>(dynamic, fixed). length dynamic + length fixed)")
  show "wf (measure (\<lambda>(dynamic, fixed). length dynamic + length fixed))"
    by simp
next
  fix dynamic fixed :: string
  assume "char_at dynamic 0 = Some CHR '':'' \<and> length fixed = 0"
  then show "((after dynamic CHR ''/'', fixed), (dynamic, fixed))
      \<in> measure (\<lambda>(dynamic, fixed). length dynamic + length fixed)"
    by (cases dynamic) (auto simp: after_def char_at_def)
next
  fix dynamic fixed :: string
  assume "\<not> (char_at dynamic 0 = Some CHR '':'' \<and> length fixed = 0)"
    and "char_at dynamic 0 = Some CHR '':'' \<and> char_at fixed 0 \<noteq> Some CHR ''/''"
  then show "((dynamic, tail fixed), (dynamic, fixed))
      \<in> measure (\<lambda>(dynamic, fixed). length dynamic + length fixed)"
    by (cases fixed) (auto simp: tail_def)
next
  fix dynamic fixed :: string
  assume "char_at dynamic 0 = Some CHR '':'' \<and> char_at fixed 0 = Some CHR ''/''"
  then show "((after dynamic CHR ''/'', tail fixed), (dynamic, fixed))
      \<in> measure (\<lambda>(dynamic, fixed). length dynamic + length fixed)"
    by (cases dynamic; cases fixed) (auto simp: after_def char_at_def tail_def)
next
  fix dynamic fixed :: string
  assume "\<not> (length dynamic = 0 \<and> length fixed = 0)"
    and "char_at dynamic 0 = char_at fixed 0"
  then show "((tail dynamic, tail fixed), (dynamic, fixed))
      \<in> measure (\<lambda>(dynamic, fixed). length dynamic + length fixed)"
    by (cases dynamic; cases fixed) (auto simp: tail_def char_at_def)
qed

declare match.simps [simp del]

text \<open>
  \<^verbatim>\<open>path.match(":")\<close> searches the candidate for the pattern \<^verbatim>\<open>:\<close>; the test happens
  before \<^verbatim>\<open>this.fullPath\<close> is read.
\<close>

definition matches :: "route list \<Rightarrow> ref \<Rightarrow> string \<Rightarrow> (error + bool) option" where
  "matches h this p =
     (if CHR '':'' \<in> set p
      then Some (Inl (InvalidArgument
        (''Cannot match '' @ p @ '', it needs to be a valid URL with no dynamic segments'')))
      else Option.bind (fullPath h this) (\<lambda>fp. Some (Inr (match fp p))))"

subsection \<open>The parent link and the children\<close>

text \<open>
  \<^verbatim>\<open>set parent(parent)\<close>: store the link, then push \<^verbatim>\<open>this\<close> on the parent's
  children unless it is there already. Nothing is checked.
\<close>

definition set_parent :: "route list \<Rightarrow> ref \<Rightarrow> ref \<Rightarrow> route list" where
  "set_parent h this parent =
     (let h1 = h[this := (h ! this)\<lparr>priv_parent := Some parent\<rparr>]
      in if this \<in> set (priv_routes (h1 ! parent)) then h1
         else h1[parent := (h1 ! parent)\<lparr>priv_routes := priv_routes (h1 ! parent) @ [this]\<rparr>])"

text \<open>
  The \<^verbatim>\<open>forEach\<close> of \<^verbatim>\<open>set routes(routes)\<close>. The message of the error reads three
  full names, in the order of the template. A throw leaves the heap as the loop
  made it so far. The code keeps the array it is given, not a copy, so that two
  routes made with one array would share their children; here each gets the list
  by value. \<^verbatim>\<open>add\<close> and \<^verbatim>\<open>Router\<close> always start a route with an array of its own.
\<close>

fun routes_forEach :: "route list \<Rightarrow> ref \<Rightarrow> ref list \<Rightarrow> ((error + unit) \<times> route list) option" where
  "routes_forEach h this [] = Some (Inr (), h)"
| "routes_forEach h this (route # rest) =
     (case priv_parent (h ! route) of
        None \<Rightarrow> routes_forEach (set_parent h route this) this rest
      | Some p \<Rightarrow>
          if p \<noteq> this then
            Option.bind (fullName h route) (\<lambda>a.
            Option.bind (fullName h this) (\<lambda>b.
            Option.bind (fullName h p) (\<lambda>c.
              Some (Inl (ConflictError
                (''Cannot add '' @ a @ '' to '' @ b @ '', because it already belongs to '' @ c)),
                h))))
          else routes_forEach (set_parent h route this) this rest)"

definition set_routes :: "route list \<Rightarrow> ref \<Rightarrow> ref list \<Rightarrow> ((error + unit) \<times> route list) option" where
  "set_routes h this routes =
     routes_forEach (h[this := (h ! this)\<lparr>priv_routes := routes\<rparr>]) this routes"

text \<open>
  \<^verbatim>\<open>new Route(config)\<close>. The new object is the next index of the heap. A constructor
  that throws leaves the objects it touched as they are.
\<close>

definition Route_new :: "store \<Rightarrow> routeOptions \<Rightarrow> ((error + ref) \<times> store) option" where
  "Route_new s config =
     (let this = length (objs s);
          h0 = objs s @
            [\<lparr>label = cfg_label config, name = cfg_name config, path = cfg_path config,
              meta = (case cfg_meta config of None \<Rightarrow> [] | Some m \<Rightarrow> m),
              priv_activePath = None, priv_parent = None, priv_routes = [],
              priv_onNewRoute = None\<rparr>]
      in case set_routes h0 this (case cfg_routes config of None \<Rightarrow> [] | Some rs \<Rightarrow> rs) of
           None \<Rightarrow> None
         | Some (Inl e, h1) \<Rightarrow> Some (Inl e, s\<lparr>objs := h1\<rparr>)
         | Some (Inr u, h1) \<Rightarrow>
             Some (Inr this,
               s\<lparr>objs := (case cfg_parent config of None \<Rightarrow> h1
                                | Some parent \<Rightarrow> set_parent h1 this parent)\<rparr>))"

subsection \<open>Enumeration\<close>

text \<open>
  \<^verbatim>\<open>flatten\<close> of \<^verbatim>\<open>allRoutes\<close>: the \<^verbatim>\<open>reduce\<close> appends, for each route in turn, the
  route and then the flattening of its children.
\<close>

partial_function (option) flatten :: "route list \<Rightarrow> ref list \<Rightarrow> ref list option" where
  "flatten h routes =
     (case routes of
        [] \<Rightarrow> Some []
      | route # rest \<Rightarrow>
          Option.bind (flatten h (priv_routes (h ! route))) (\<lambda>below.
          Option.bind (flatten h rest) (\<lambda>others. Some (route # below @ others))))"

declare flatten.simps [code]

definition allRoutes :: "route list \<Rightarrow> ref \<Rightarrow> ref list option" where
  "allRoutes h this = flatten h (priv_routes (h ! this))"

definition pages :: "route list \<Rightarrow> ref \<Rightarrow> ref list option" where
  "pages h this =
     map_option (filter (\<lambda>route. length (priv_routes (h ! route)) = 0)) (allRoutes h this)"

subsection \<open>The active path and page\<close>

partial_function (option) activePath :: "route list \<Rightarrow> ref \<Rightarrow> string option option" where
  "activePath h this =
     (case priv_parent (h ! this) of
        Some parent \<Rightarrow> activePath h parent
      | None \<Rightarrow> Some (priv_activePath (h ! this)))"

declare activePath.simps [code]

definition set_activePath :: "route list \<Rightarrow> ref \<Rightarrow> string \<Rightarrow> (error + unit) \<times> route list" where
  "set_activePath h this p =
     (case priv_parent (h ! this) of
        Some parent \<Rightarrow>
          (Inl (InvalidOperation ''activePath can only be set on the router, not a child route''), h)
      | None \<Rightarrow> (Inr (), h[this := (h ! this)\<lparr>priv_activePath := Some p\<rparr>]))"

text \<open>\<^verbatim>\<open>.replace(/\/+$/, "")\<close> removes the slashes that end the string.\<close>

definition strip_slashes :: "string \<Rightarrow> string" where
  "strip_slashes str = rev (dropWhile (\<lambda>c. c = CHR ''/'') (rev str))"

text \<open>
  \<^verbatim>\<open>this.pages.find(route => route.matches(this.activePath.replace(...)))\<close>. The
  callback runs once per page until it answers true; the argument of \<^verbatim>\<open>matches\<close> is
  computed first, and reading \<^verbatim>\<open>replace\<close> of an unset active path is a type error.
\<close>

fun find_active :: "route list \<Rightarrow> ref \<Rightarrow> ref list \<Rightarrow> (error + ref option) option" where
  "find_active h this [] = Some (Inr None)"
| "find_active h this (route # rest) =
     (case activePath h this of
        None \<Rightarrow> None
      | Some None \<Rightarrow> Some (Inl TypeError)
      | Some (Some ap) \<Rightarrow>
          (case matches h route (strip_slashes ap) of
             None \<Rightarrow> None
           | Some (Inl e) \<Rightarrow> Some (Inl e)
           | Some (Inr b) \<Rightarrow> if b then Some (Inr (Some route)) else find_active h this rest))"

definition activePage :: "route list \<Rightarrow> ref \<Rightarrow> (error + ref option) option" where
  "activePage h this =
     (case pages h this of None \<Rightarrow> None | Some ps \<Rightarrow> find_active h this ps)"

text \<open>
  \<^verbatim>\<open>this.pages.find(route => route.fullName === this.activePage.fullName)\<close>. The
  getters read and never write, so the active page, found once by the caller, is the
  one every run of the callback would find again.
\<close>

fun find_fullName :: "route list \<Rightarrow> ref \<Rightarrow> ref list \<Rightarrow> ref option option" where
  "find_fullName h ap [] = Some None"
| "find_fullName h ap (route # rest) =
     Option.bind (fullName h route) (\<lambda>a.
     Option.bind (fullName h ap) (\<lambda>b.
       if a = b then Some (Some route) else find_fullName h ap rest))"

text \<open>\<^verbatim>\<open>Array.prototype.indexOf\<close>, and an array read, \<^verbatim>\<open>undefined\<close> out of range.\<close>

fun indexOf :: "ref list \<Rightarrow> ref \<Rightarrow> int" where
  "indexOf [] x = - 1"
| "indexOf (y # ys) x =
     (if y = x then 0 else (let i = indexOf ys x in if i < 0 then - 1 else i + 1))"

definition elem_at :: "ref list \<Rightarrow> int \<Rightarrow> ref option" where
  "elem_at xs i = (if 0 \<le> i \<and> i < int (length xs) then Some (xs ! nat i) else None)"

definition previousPage :: "route list \<Rightarrow> ref \<Rightarrow> (error + ref option) option" where
  "previousPage h this =
     (case activePage h this of
        None \<Rightarrow> None
      | Some (Inl e) \<Rightarrow> Some (Inl e)
      | Some (Inr None) \<Rightarrow> Some (Inr None)
      | Some (Inr (Some ap)) \<Rightarrow>
          (case pages h this of
             None \<Rightarrow> None
           | Some ps \<Rightarrow>
               (case find_fullName h ap ps of
                  None \<Rightarrow> None
                | Some None \<Rightarrow> Some (Inr None)
                | Some (Some m) \<Rightarrow>
                    (let currentIndex = indexOf ps m;
                         hasPreviousPage = currentIndex > 0
                     in Some (Inr (if hasPreviousPage then elem_at ps (currentIndex - 1)
                                   else None))))))"

definition nextPage :: "route list \<Rightarrow> ref \<Rightarrow> (error + ref option) option" where
  "nextPage h this =
     (case activePage h this of
        None \<Rightarrow> None
      | Some (Inl e) \<Rightarrow> Some (Inl e)
      | Some (Inr None) \<Rightarrow> Some (Inr None)
      | Some (Inr (Some ap)) \<Rightarrow>
          (case pages h this of
             None \<Rightarrow> None
           | Some ps \<Rightarrow>
               (case find_fullName h ap ps of
                  None \<Rightarrow> None
                | Some None \<Rightarrow> Some (Inr None)
                | Some (Some m) \<Rightarrow>
                    (let currentIndex = indexOf ps m;
                         hasNextPage = currentIndex < int (length ps)
                     in Some (Inr (if hasNextPage then elem_at ps (currentIndex + 1)
                                   else None))))))"

subsection \<open>Search\<close>

text \<open>
  \<^verbatim>\<open>Array.prototype.find\<close> with a callback that may not return. The search object of
  \<^verbatim>\<open>find\<close> is the list of its own keys with their values, in the order of
  \<^verbatim>\<open>Object.keys\<close>; \<^verbatim>\<open>every\<close> stops at the first key that differs.
\<close>

fun find_first :: "(ref \<Rightarrow> bool option) \<Rightarrow> ref list \<Rightarrow> ref option option" where
  "find_first f [] = Some None"
| "find_first f (route # rest) =
     Option.bind (f route) (\<lambda>b. if b then Some (Some route) else find_first f rest)"

datatype key = Label | Name | FullName | Path | FullPath

fun field_of :: "route list \<Rightarrow> ref \<Rightarrow> key \<Rightarrow> string option" where
  "field_of h route Label = Some (label (h ! route))"
| "field_of h route Name = Some (name (h ! route))"
| "field_of h route FullName = fullName h route"
| "field_of h route Path = Some (path (h ! route))"
| "field_of h route FullPath = fullPath h route"

fun every_key :: "route list \<Rightarrow> ref \<Rightarrow> (key \<times> string) list \<Rightarrow> bool option" where
  "every_key h route [] = Some True"
| "every_key h route ((k, v) # search) =
     Option.bind (field_of h route k) (\<lambda>w. if v = w then every_key h route search else Some False)"

definition find_route :: "route list \<Rightarrow> ref \<Rightarrow> (key \<times> string) list \<Rightarrow> ref option option" where
  "find_route h this search =
     Option.bind (allRoutes h this) (find_first (\<lambda>route. every_key h route search))"

definition has :: "route list \<Rightarrow> ref \<Rightarrow> (key \<times> string) list \<Rightarrow> bool option" where
  "has h this search = map_option (\<lambda>found. found \<noteq> None) (find_route h this search)"

definition routerFor :: "route list \<Rightarrow> ref \<Rightarrow> string \<Rightarrow> ref option option" where
  "routerFor h this fp =
     Option.bind (allRoutes h this)
       (find_first (\<lambda>route. map_option (\<lambda>p. p = fp) (fullPath h route)))"

subsection \<open>Building the tree\<close>

text \<open>
  \<^verbatim>\<open>didCreateRoute\<close> calls the listener of \<^verbatim>\<open>this\<close> and hands the route to the parent.
\<close>

partial_function (option) didCreateRoute :: "store \<Rightarrow> ref \<Rightarrow> ref \<Rightarrow> store option" where
  "didCreateRoute s this route =
     (let s1 = (case priv_onNewRoute (objs s ! this) of
                  None \<Rightarrow> s
                | Some cb \<Rightarrow> s\<lparr>calls := calls s @ [(cb, route)]\<rparr>)
      in case priv_parent (objs s1 ! this) of
           None \<Rightarrow> Some s1
         | Some parent \<Rightarrow> didCreateRoute s1 parent route)"

declare didCreateRoute.simps [code]


text \<open>
  \<^verbatim>\<open>add\<close>: the new route is made first, its own definitions are added under it, and
  only then is it linked to \<^verbatim>\<open>this\<close> and announced. \<open>add_each\<close> is the
  \<^verbatim>\<open>definition.routes.map(childDefinition => route.add(childDefinition))\<close>.
\<close>

fun add :: "store \<Rightarrow> ref \<Rightarrow> routeDefinition \<Rightarrow> ((error + ref) \<times> store) option"
  and add_each :: "store \<Rightarrow> ref \<Rightarrow> routeDefinition list \<Rightarrow> ((error + unit) \<times> store) option"
where
  "add s this (RouteDefinition dlabel dname dpath droutes dmeta) =
     (case Route_new s
             \<lparr>cfg_label = dlabel, cfg_name = dname,
              cfg_path = (case dpath of Some p \<Rightarrow> p | None \<Rightarrow> ''/'' @ dname),
              cfg_meta = Some (case dmeta of Some m \<Rightarrow> m | None \<Rightarrow> []),
              cfg_routes = None, cfg_parent = None\<rparr> of
        None \<Rightarrow> None
      | Some (Inl e, s1) \<Rightarrow> Some (Inl e, s1)
      | Some (Inr route, s1) \<Rightarrow>
          (case add_each s1 route droutes of
             None \<Rightarrow> None
           | Some (Inl e, s2) \<Rightarrow> Some (Inl e, s2)
           | Some (Inr u, s2) \<Rightarrow>
               (case didCreateRoute (s2\<lparr>objs := set_parent (objs s2) route this\<rparr>) this route of
                  None \<Rightarrow> None
                | Some s3 \<Rightarrow> Some (Inr route, s3))))"
| "add_each s this [] = Some (Inr (), s)"
| "add_each s this (childDefinition # rest) =
     (case add s this childDefinition of
        None \<Rightarrow> None
      | Some (Inl e, s1) \<Rightarrow> Some (Inl e, s1)
      | Some (Inr route, s1) \<Rightarrow> add_each s1 this rest)"

text \<open>
  \<^verbatim>\<open>new Router(definitions)\<close>: a route with empty name, label and path, then one
  \<^verbatim>\<open>add\<close> per definition.
\<close>

definition Router :: "store \<Rightarrow> routeDefinition list \<Rightarrow> ((error + ref) \<times> store) option" where
  "Router s definitions =
     (case Route_new s
             \<lparr>cfg_label = [], cfg_name = [], cfg_path = [], cfg_meta = None,
              cfg_routes = None, cfg_parent = None\<rparr> of
        None \<Rightarrow> None
      | Some (Inl e, s1) \<Rightarrow> Some (Inl e, s1)
      | Some (Inr this, s1) \<Rightarrow>
          (case add_each s1 this definitions of
             None \<Rightarrow> None
           | Some (Inl e, s2) \<Rightarrow> Some (Inl e, s2)
           | Some (Inr u, s2) \<Rightarrow> Some (Inr this, s2)))"

section \<open>Notions used in the statements\<close>

text \<open>
  \<open>chain h n as\<close>: in the heap \<open>h\<close>, the list \<open>as\<close> is the node \<open>n\<close>, its parent, the
  parent of that, and so on up to a node without parent.
\<close>

fun chain :: "route list \<Rightarrow> ref \<Rightarrow> ref list \<Rightarrow> bool" where
  "chain h n [] = False"
| "chain h n [a] = (a = n \<and> n < length h \<and> priv_parent (h ! n) = None)"
| "chain h n (a # b # bs) =
     (a = n \<and> n < length h \<and> priv_parent (h ! n) = Some b \<and> chain h b (b # bs))"

text \<open>The strings of a list that are not empty, joined by a separator.\<close>

definition join_nonempty :: "string \<Rightarrow> string list \<Rightarrow> string" where
  "join_nonempty sep xs = join sep (filter (\<lambda>x. x \<noteq> []) xs)"

text \<open>
  The calls made when a route is announced to the nodes \<open>as\<close> in turn: one call for
  each node that has a registered listener, with the route as argument.
\<close>

fun notifications :: "route list \<Rightarrow> ref list \<Rightarrow> ref \<Rightarrow> (callback \<times> ref) list" where
  "notifications h [] route = []"
| "notifications h (a # as) route =
     (case priv_onNewRoute (h ! a) of
        None \<Rightarrow> notifications h as route
      | Some cb \<Rightarrow> (cb, route) # notifications h as route)"

text \<open>
  \<open>extends_up h h'\<close>: the heap \<open>h'\<close> has the objects of \<open>h\<close> and maybe more, and the
  old objects kept their parent and their listener.
\<close>

definition extends_up :: "route list \<Rightarrow> route list \<Rightarrow> bool" where
  "extends_up h h' \<longleftrightarrow>
     length h \<le> length h' \<and>
     (\<forall>m<length h. priv_parent (h' ! m) = priv_parent (h ! m) \<and>
        priv_onNewRoute (h' ! m) = priv_onNewRoute (h ! m))"



subsection \<open>A small tree\<close>

text \<open>
  Four of the definitions of the module's own table, cut down: three top-level
  routes, one of them two levels deep, one with a dynamic segment.
\<close>

definition demo_definitions :: "routeDefinition list" where
  "demo_definitions =
     [RouteDefinition ''Index'' ''index'' (Some ''/'') [] None,
      RouteDefinition ''Documentation'' ''docs'' None
        [RouteDefinition ''Getting started'' ''getting-started'' None
           [RouteDefinition ''Introduction'' ''introduction'' None [] None,
            RouteDefinition ''Installation'' ''installation'' None [] None] None] None,
      RouteDefinition ''API'' ''api'' None
        [RouteDefinition ''Class'' ''class'' (Some ''/classes/:classSlug'') [] None] None]"

definition node :: "string \<Rightarrow> string \<Rightarrow> string \<Rightarrow> ref option \<Rightarrow> ref list \<Rightarrow> route" where
  "node l n p up down =
     \<lparr>label = l, name = n, path = p, meta = [], priv_activePath = None,
      priv_parent = up, priv_routes = down, priv_onNewRoute = None\<rparr>"

definition demo_heap :: "route list" where
  "demo_heap =
     [node [] [] [] None [1, 2, 6],
      node ''Index'' ''index'' ''/'' (Some 0) [],
      node ''Documentation'' ''docs'' ''/docs'' (Some 0) [3],
      node ''Getting started'' ''getting-started'' ''/getting-started'' (Some 2) [4, 5],
      node ''Introduction'' ''introduction'' ''/introduction'' (Some 3) [],
      node ''Installation'' ''installation'' ''/installation'' (Some 3) [],
      node ''API'' ''api'' ''/api'' (Some 0) [7],
      node ''Class'' ''class'' ''/classes/:classSlug'' (Some 6) []]"


text \<open>The small tree after \<^verbatim>\<open>activePath\<close> was assigned on its root.\<close>

definition demo_active :: "route list" where
  "demo_active =
     demo_heap[0 := (demo_heap ! 0)\<lparr>priv_activePath := Some ''/docs/getting-started/installation/''\<rparr>]"

definition demo_dynamic :: "route list" where
  "demo_dynamic =
     demo_heap[0 := (demo_heap ! 0)\<lparr>priv_activePath := Some ''/api/classes/:classSlug''\<rparr>]"

text \<open>Three pages, the first two under one name.\<close>

definition twin_definitions :: "routeDefinition list" where
  "twin_definitions =
     [RouteDefinition ''First'' ''twin'' (Some ''/a'') [] None,
      RouteDefinition ''Second'' ''twin'' (Some ''/b'') [] None,
      RouteDefinition ''Third'' ''other'' (Some ''/c'') [] None]"

definition twin_heap :: "route list" where
  "twin_heap =
     [node [] [] [] None [1, 2, 3],
      node ''First'' ''twin'' ''/a'' (Some 0) [],
      node ''Second'' ''twin'' ''/b'' (Some 0) [],
      node ''Third'' ''other'' ''/c'' (Some 0) []]"

definition twin_active :: "route list" where
  "twin_active = twin_heap[0 := (twin_heap ! 0)\<lparr>priv_activePath := Some ''/b''\<rparr>]"

text \<open>Two definitions that are the same in everything.\<close>

definition pair_definitions :: "routeDefinition list" where
  "pair_definitions =
     [RouteDefinition ''Twin'' ''twin'' None [] None,
      RouteDefinition ''Twin'' ''twin'' None [] None]"

definition pair_heap :: "route list" where
  "pair_heap =
     [node [] [] [] None [1, 2],
      node ''Twin'' ''twin'' ''/twin'' (Some 0) [],
      node ''Twin'' ''twin'' ''/twin'' (Some 0) []]"

text \<open>Two routes with dynamic segments, right under the root.\<close>

definition slug_definitions :: "routeDefinition list" where
  "slug_definitions =
     [RouteDefinition ''Class'' ''class'' (Some ''/classes/:classSlug'') [] None,
      RouteDefinition ''Pair'' ''pair'' (Some ''/:a/:b'') [] None]"

definition slug_heap :: "route list" where
  "slug_heap =
     [node [] [] [] None [1, 2],
      node ''Class'' ''class'' ''/classes/:classSlug'' (Some 0) [],
      node ''Pair'' ''pair'' ''/:a/:b'' (Some 0) []]"

subsection \<open>Well-founded heaps\<close>

text \<open>
  A heap is free of cycles along the parent links, or along the child arrays, when
  some rank decreases along them. Both also say that the references are objects of
  the heap.
\<close>

definition wf_up :: "route list \<Rightarrow> (ref \<Rightarrow> nat) \<Rightarrow> bool" where
  "wf_up h rank \<longleftrightarrow>
     (\<forall>n<length h. \<forall>p. priv_parent (h ! n) = Some p \<longrightarrow> p < length h \<and> rank p < rank n)"

definition wf_down :: "route list \<Rightarrow> (ref \<Rightarrow> nat) \<Rightarrow> bool" where
  "wf_down h rank \<longleftrightarrow>
     (\<forall>p<length h. \<forall>c\<in>set (priv_routes (h ! p)). c < length h \<and> rank c < rank p)"

text \<open>\<open>below h p x\<close>: \<open>x\<close> is a child of \<open>p\<close>, or a child of a child, and so on.\<close>

inductive below :: "route list \<Rightarrow> ref \<Rightarrow> ref \<Rightarrow> bool" for h :: "route list" where
  child: "c \<in> set (priv_routes (h ! p)) \<Longrightarrow> below h p c"
| step: "below h p q \<Longrightarrow> c \<in> set (priv_routes (h ! q)) \<Longrightarrow> below h p c"

text \<open>The depth of the nodes of the small tree.\<close>

definition demo_depth :: "ref \<Rightarrow> nat" where
  "demo_depth n = [0, 1, 1, 2, 3, 3, 1, 2] ! n"

subsection \<open>What adding does to the heap\<close>

text \<open>
  \<open>grown h this cs h'\<close>: the heap \<open>h'\<close> is \<open>h\<close> with new objects after the old ones. The
  old objects are as they were, but for \<open>this\<close>, which has the new children \<open>cs\<close> after
  its old ones. A new object has its parent before it, either \<open>this\<close> or a new
  object, and its children after it. Flattening \<open>cs\<close> in \<open>h'\<close> lists the new objects in
  the order they were made.
\<close>

definition grown :: "route list \<Rightarrow> ref \<Rightarrow> ref list \<Rightarrow> route list \<Rightarrow> bool" where
  "grown h this cs h' \<longleftrightarrow>
     length h \<le> length h' \<and>
     (\<forall>m<length h. h' ! m =
        (if m = this then (h ! m)\<lparr>priv_routes := priv_routes (h ! m) @ cs\<rparr> else h ! m)) \<and>
     (\<forall>m. length h \<le> m \<and> m < length h' \<longrightarrow>
        (\<exists>p. priv_parent (h' ! m) = Some p \<and> p < m \<and> (p = this \<or> length h \<le> p)) \<and>
        (\<forall>c\<in>set (priv_routes (h' ! m)). m < c \<and> c < length h')) \<and>
     flatten h' cs = Some [length h..<length h']"

text \<open>The object that \<^verbatim>\<open>add\<close> makes for a definition, before anything is linked.\<close>

fun fresh :: "routeDefinition \<Rightarrow> route" where
  "fresh (RouteDefinition dlabel dname dpath droutes dmeta) =
     \<lparr>label = dlabel, name = dname,
      path = (case dpath of Some p \<Rightarrow> p | None \<Rightarrow> ''/'' @ dname),
      meta = (case dmeta of Some m \<Rightarrow> m | None \<Rightarrow> []),
      priv_activePath = None, priv_parent = None, priv_routes = [],
      priv_onNewRoute = None\<rparr>"

text \<open>Two nodes with the same five values that \<^verbatim>\<open>find\<close> can ask for.\<close>

definition same_values :: "route list \<Rightarrow> ref \<Rightarrow> ref \<Rightarrow> bool" where
  "same_values h a b \<longleftrightarrow>
     name (h ! a) = name (h ! b) \<and> fullName h a = fullName h b \<and>
     path (h ! a) = path (h ! b) \<and> fullPath h a = fullPath h b \<and>
     label (h ! a) = label (h ! b)"

text \<open>The object that \<^verbatim>\<open>new Router\<close> makes before it adds the definitions.\<close>

definition blank :: route where
  "blank = \<lparr>label = [], name = [], path = [], meta = [], priv_activePath = None,
     priv_parent = None, priv_routes = [], priv_onNewRoute = None\<rparr>"

subsection \<open>Matching, as the specification words it\<close>

text \<open>
  Follows the specification, not the code: the pattern is read as fixed runs and
  dynamic runs, a dynamic run going from \<^verbatim>\<open>:\<close> to the next \<^verbatim>\<open>/\<close> or to the end. A
  dynamic run takes the characters of the candidate up to the next \<^verbatim>\<open>/\<close>, and there
  must be at least one; a fixed character takes the same character; both strings must
  end together.
\<close>

function spec_match :: "string \<Rightarrow> string \<Rightarrow> bool" where
  "spec_match [] candidate = (candidate = [])"
| "spec_match (c # pattern) candidate =
     (if c = CHR '':''
      then takeWhile (\<lambda>x. x \<noteq> CHR ''/'') candidate \<noteq> [] \<and>
           spec_match (dropWhile (\<lambda>x. x \<noteq> CHR ''/'') pattern)
             (dropWhile (\<lambda>x. x \<noteq> CHR ''/'') candidate)
      else (case candidate of [] \<Rightarrow> False | d # rest \<Rightarrow> c = d \<and> spec_match pattern rest))"
  by pat_completeness auto
termination
  by (relation "measure (\<lambda>(pattern, candidate). length pattern)")
    (auto simp: length_dropWhile_le less_Suc_eq_le)

section \<open>Lemmas\<close>

subsection \<open>Parent chains\<close>

lemma join_snoc: "ys \<noteq> [] \<Longrightarrow> join sep (ys @ [x]) = join sep ys @ sep @ x"
  by (induction sep ys rule: join.induct) auto

lemma join_not_empty: "ys \<noteq> [] \<Longrightarrow> \<forall>y\<in>set ys. y \<noteq> [] \<Longrightarrow> join sep ys \<noteq> []"
  by (induction sep ys rule: join.induct) auto

lemma join_parts_snoc:
  "join sep (truthy_parts [Some (join_nonempty sep xs), Some x]) = join_nonempty sep (xs @ [x])"
proof (cases "filter (\<lambda>x. x \<noteq> []) xs = []")
  case True
  then show ?thesis by (simp add: join_nonempty_def)
next
  case False
  then have "join sep (filter (\<lambda>x. x \<noteq> []) xs) \<noteq> []"
    by (intro join_not_empty) auto
  with False show ?thesis by (simp add: join_nonempty_def join_snoc)
qed

lemma chain_hd: "chain h n as \<Longrightarrow> as \<noteq> [] \<and> hd as = n \<and> n < length h"
  by (induction h n as rule: chain.induct) auto

lemma fullName_chain:
  "chain h n as \<Longrightarrow> fullName h n = Some (join_nonempty ''.'' (map (\<lambda>a. name (h ! a)) (rev as)))"
proof (induction h n as rule: chain.induct)
  case (1 h n)
  then show ?case by simp
next
  case (2 h n a)
  then show ?case by (subst fullName.simps) (simp add: join_nonempty_def)
next
  case (3 h n a b bs)
  then have "fullName h b = Some (join_nonempty ''.'' (map (\<lambda>a. name (h ! a)) (rev (b # bs))))"
    by simp
  with 3 show ?case
    by (subst fullName.simps) (simp add: join_parts_snoc del: truthy_parts.simps)
qed

lemma fullPath_chain:
  "chain h n as \<Longrightarrow> fullPath h n = Some (join_nonempty [] (map (\<lambda>a. path (h ! a)) (rev as)))"
proof (induction h n as rule: chain.induct)
  case (1 h n)
  then show ?case by simp
next
  case (2 h n a)
  then show ?case by (subst fullPath.simps) (simp add: join_nonempty_def)
next
  case (3 h n a b bs)
  then have "fullPath h b = Some (join_nonempty [] (map (\<lambda>a. path (h ! a)) (rev (b # bs))))"
    by simp
  with 3 show ?case
    by (subst fullPath.simps) (simp add: join_parts_snoc del: truthy_parts.simps)
qed

lemma activePath_chain:
  "chain h n as \<Longrightarrow> activePath h n = Some (priv_activePath (h ! last as))"
proof (induction h n as rule: chain.induct)
  case (1 h n)
  then show ?case by simp
next
  case (2 h n a)
  then show ?case by (subst activePath.simps) simp
next
  case (3 h n a b bs)
  then show ?case by (subst activePath.simps) simp
qed

lemma didCreateRoute_chain:
  "chain (objs s) this as \<Longrightarrow>
   didCreateRoute s this route = Some (s\<lparr>calls := calls s @ notifications (objs s) as route\<rparr>)"
proof (induction "objs s" this as arbitrary: s rule: chain.induct)
  case (1 n)
  then show ?case by simp
next
  case (2 n a)
  then show ?case
    by (subst didCreateRoute.simps) (simp split: option.splits)
next
  case (3 n a b bs)
  show ?case
  proof (cases "priv_onNewRoute (objs s ! n)")
    case None
    with 3 show ?thesis
      by (subst didCreateRoute.simps) simp
  next
    case (Some cb)
    let ?s1 = "s\<lparr>calls := calls s @ [(cb, route)]\<rparr>"
    have "didCreateRoute ?s1 b route
        = Some (?s1\<lparr>calls := calls ?s1 @ notifications (objs ?s1) (b # bs) route\<rparr>)"
      using 3 by (intro "3.hyps") simp_all
    with 3 Some show ?thesis
      by (subst didCreateRoute.simps) simp
  qed
qed

subsection \<open>The calls made by adding\<close>

lemma nth_update_if: "m < length h \<Longrightarrow> h[r := x] ! m = (if m = r then x else h ! m)"
  by (cases "m = r") simp_all



lemma chain_bound: "chain h n as \<Longrightarrow> \<forall>a\<in>set as. a < length h"
  by (induction h n as rule: chain.induct) auto

lemma chain_extends: "chain h n as \<Longrightarrow> extends_up h h' \<Longrightarrow> chain h' n as"
  by (induction h n as rule: chain.induct) (auto simp: extends_up_def)

lemma notifications_extends:
  "\<forall>a\<in>set as. a < length h \<Longrightarrow> extends_up h h' \<Longrightarrow>
   notifications h' as route = notifications h as route"
  by (induction as) (auto simp: extends_up_def split: option.splits)

lemma Route_new_plain:
  "cfg_routes config = None \<Longrightarrow> cfg_parent config = None \<Longrightarrow>
   Route_new s config =
     Some (Inr (length (objs s)),
       s\<lparr>objs := objs s @
         [\<lparr>label = cfg_label config, name = cfg_name config, path = cfg_path config,
           meta = (case cfg_meta config of None \<Rightarrow> [] | Some m \<Rightarrow> m),
           priv_activePath = None, priv_parent = None, priv_routes = [],
           priv_onNewRoute = None\<rparr>]\<rparr>)"
  by (simp add: Route_new_def set_routes_def)

lemma length_set_parent: "length (set_parent h n p) = length h"
  by (simp add: set_parent_def Let_def)

lemma parent_set_parent:
  "n < length h \<Longrightarrow> m < length h \<Longrightarrow>
   priv_parent (set_parent h n p ! m) = (if m = n then Some p else priv_parent (h ! m))"
  by (cases "m = p"; cases "m = n") (simp_all add: set_parent_def Let_def)

lemma listener_set_parent:
  "m < length h \<Longrightarrow> priv_onNewRoute (set_parent h n p ! m) = priv_onNewRoute (h ! m)"
  by (cases "m = p"; cases "m = n") (simp_all add: set_parent_def Let_def)


lemma add_step:
  assumes "chain (objs s) this as"
    and "add_each (s\<lparr>objs := objs s @ [fresh d]\<rparr>) (length (objs s)) (def_routes d) = Some (Inr (), s2)"
    and "extends_up (objs s @ [fresh d]) (objs s2)"
  shows "add s this d =
    Some (Inr (length (objs s)),
      s2\<lparr>objs := set_parent (objs s2) (length (objs s)) this,
         calls := calls s2 @ notifications (objs s) as (length (objs s))\<rparr>)"
proof (cases d)
  case (RouteDefinition dlabel dname dpath droutes dmeta)
  let ?n = "length (objs s)"
  let ?fresh = "\<lparr>label = dlabel, name = dname,
      path = (case dpath of Some p \<Rightarrow> p | None \<Rightarrow> ''/'' @ dname),
      meta = (case dmeta of Some m \<Rightarrow> m | None \<Rightarrow> []),
      priv_activePath = None, priv_parent = None, priv_routes = [],
      priv_onNewRoute = None\<rparr>"
  let ?s1 = "s\<lparr>objs := objs s @ [?fresh]\<rparr>"
  have new: "Route_new s
      \<lparr>cfg_label = dlabel, cfg_name = dname,
       cfg_path = (case dpath of Some p \<Rightarrow> p | None \<Rightarrow> ''/'' @ dname),
       cfg_meta = Some (case dmeta of Some m \<Rightarrow> m | None \<Rightarrow> []),
       cfg_routes = None, cfg_parent = None\<rparr> = Some (Inr ?n, ?s1)"
    by (simp add: Route_new_plain)
  have each: "add_each ?s1 ?n droutes = Some (Inr (), s2)"
    using assms(2) RouteDefinition by simp
  have e12: "extends_up (objs s @ [?fresh]) (objs s2)"
    using assms(3) RouteDefinition by simp
  have this_lt: "this < ?n" using assms(1) chain_hd by blast
  have bound: "\<forall>a\<in>set as. a < ?n" using assms(1) by (rule chain_bound)
  have e01: "extends_up (objs s) (objs s @ [?fresh])"
    by (simp add: extends_up_def nth_append)
  have len2: "?n < length (objs s2)" using e12 by (simp add: extends_up_def)
  let ?h3 = "set_parent (objs s2) ?n this"
  let ?s3 = "s2\<lparr>objs := ?h3\<rparr>"
  have e23: "extends_up (objs s) ?h3"
    using e01 e12 len2 this_lt
    by (auto simp: extends_up_def length_set_parent parent_set_parent listener_set_parent)
  have c3: "chain (objs ?s3) this as"
    using chain_extends [OF assms(1) e23] by simp
  have same_notes: "notifications ?h3 as ?n = notifications (objs s) as ?n"
    using bound e23 by (rule notifications_extends)
  have did: "didCreateRoute ?s3 this ?n
      = Some (?s3\<lparr>calls := calls s2 @ notifications (objs s) as ?n\<rparr>)"
    using didCreateRoute_chain [OF c3, of ?n] same_notes by simp
  have "add s this (RouteDefinition dlabel dname dpath droutes dmeta)
      = Some (Inr ?n, ?s3\<lparr>calls := calls s2 @ notifications (objs s) as ?n\<rparr>)"
    using new each did by simp
  then show ?thesis
    unfolding RouteDefinition by simp
qed


subsection \<open>The active page and its neighbours\<close>

lemma set_strip_slashes: "set (strip_slashes str) \<subseteq> set str"
  using set_dropWhileD [of _ "\<lambda>c. c = CHR ''/''" "rev str"]
  by (auto simp: strip_slashes_def)

lemma activePath_root: "priv_parent (h ! r) = None \<Longrightarrow> activePath h r = Some (priv_activePath (h ! r))"
  by (subst activePath.simps) simp

lemma find_active_unset:
  "activePath h r = Some None \<Longrightarrow> find_active h r ps = Some (if ps = [] then Inr None else Inl TypeError)"
  by (cases ps) simp_all

lemma matches_plain:
  "CHR '':'' \<notin> set c \<Longrightarrow> fullPath h p = Some fp \<Longrightarrow> matches h p c = Some (Inr (match fp c))"
  by (simp add: matches_def)

lemma find_active_set:
  assumes "activePath h r = Some (Some ap)" and "CHR '':'' \<notin> set ap"
  shows "\<forall>p\<in>set ps. fullPath h p \<noteq> None \<Longrightarrow>
    find_active h r ps =
      Some (Inr (List.find (\<lambda>p. matches h p (strip_slashes ap) = Some (Inr True)) ps))"
proof (induction ps)
  case Nil
  then show ?case by simp
next
  case (Cons p ps)
  from Cons.prems obtain fp where fp: "fullPath h p = Some fp" by auto
  have "CHR '':'' \<notin> set (strip_slashes ap)"
    using assms(2) set_strip_slashes by blast
  then have "matches h p (strip_slashes ap) = Some (Inr (match fp (strip_slashes ap)))"
    using fp by (rule matches_plain)
  with Cons assms(1) show ?case by simp
qed

lemma indexOf_first:
  "i < length ps \<Longrightarrow> ps ! i = x \<Longrightarrow> \<forall>j<i. ps ! j \<noteq> x \<Longrightarrow> indexOf ps x = int i"
proof (induction ps arbitrary: i)
  case Nil
  then show ?case by simp
next
  case (Cons p ps)
  show ?case
  proof (cases i)
    case 0
    with Cons.prems show ?thesis by simp
  next
    case (Suc k)
    with Cons.prems have "p \<noteq> x" by auto
    moreover have "indexOf ps x = int k"
      using Cons.prems Suc by (intro Cons.IH) auto
    ultimately show ?thesis using Suc by (simp add: Let_def)
  qed
qed

lemma find_fullName_first:
  "i < length ps \<Longrightarrow> fullName h (ps ! i) = Some v \<Longrightarrow> fullName h P = Some v \<Longrightarrow>
   \<forall>j<i. \<exists>w. fullName h (ps ! j) = Some w \<and> w \<noteq> v \<Longrightarrow>
   find_fullName h P ps = Some (Some (ps ! i))"
proof (induction ps arbitrary: i)
  case Nil
  then show ?case by simp
next
  case (Cons p ps)
  show ?case
  proof (cases i)
    case 0
    with Cons.prems show ?thesis by simp
  next
    case (Suc k)
    with Cons.prems obtain w where w: "fullName h p = Some w" "w \<noteq> v" by force
    have "find_fullName h P ps = Some (Some (ps ! k))"
      using Cons.prems Suc by (intro Cons.IH) auto
    with w Cons.prems(3) Suc show ?thesis by simp
  qed
qed

lemma elem_at_pred: "0 < i \<Longrightarrow> i < length ps \<Longrightarrow> elem_at ps (int i - 1) = Some (ps ! (i - 1))"
  by (simp add: elem_at_def nat_diff_distrib')

lemma elem_at_succ:
  "elem_at ps (int i + 1) = (if i + 1 < length ps then Some (ps ! (i + 1)) else None)"
  by (simp add: elem_at_def nat_add_distrib)

subsection \<open>Flattening a heap without cycles\<close>

lemma below_left: "below h c x \<Longrightarrow> c \<in> set (priv_routes (h ! r)) \<Longrightarrow> below h r x"
  by (induction rule: below.induct) (auto intro: below.intros)

lemma below_unfold:
  "below h r x \<longleftrightarrow> x \<in> set (priv_routes (h ! r)) \<or> (\<exists>c\<in>set (priv_routes (h ! r)). below h c x)"
proof
  assume "below h r x"
  then show "x \<in> set (priv_routes (h ! r)) \<or> (\<exists>c\<in>set (priv_routes (h ! r)). below h c x)"
    by (induction rule: below.induct) (auto intro: below.intros)
next
  assume "x \<in> set (priv_routes (h ! r)) \<or> (\<exists>c\<in>set (priv_routes (h ! r)). below h c x)"
  then show "below h r x"
    by (auto intro: below.child below_left)
qed

lemma flatten_Nil: "flatten h [] = Some []"
  by (subst flatten.simps) simp

lemma flatten_Cons:
  "flatten h (r # rs) =
     Option.bind (flatten h (priv_routes (h ! r))) (\<lambda>below.
     Option.bind (flatten h rs) (\<lambda>others. Some (r # below @ others)))"
  by (subst flatten.simps) simp

lemma flatten_wf:
  assumes "wf_down h rank"
  shows "\<forall>r\<in>set rs. r < length h \<and> rank r < k \<Longrightarrow>
    \<exists>xs. flatten h rs = Some xs \<and> (\<forall>x\<in>set xs. x < length h \<and> rank x < k) \<and>
      set xs = set rs \<union> {x. \<exists>r\<in>set rs. below h r x}"
proof (induction k arbitrary: rs)
  case 0
  then have "rs = []" by (cases rs) auto
  then show ?case by (simp add: flatten_Nil)
next
  case (Suc k)
  from Suc.prems show ?case
  proof (induction rs)
    case Nil
    then show ?case by (simp add: flatten_Nil)
  next
    case (Cons r rs)
    let ?cs = "priv_routes (h ! r)"
    from Cons.prems have r: "r < length h" "rank r < Suc k" by auto
    with assms have "\<forall>c\<in>set ?cs. c < length h \<and> rank c < k"
      by (fastforce simp: wf_down_def)
    from Suc.IH [OF this] obtain ys where ys: "flatten h ?cs = Some ys"
      "\<forall>x\<in>set ys. x < length h \<and> rank x < k"
      "set ys = set ?cs \<union> {x. \<exists>c\<in>set ?cs. below h c x}"
      by blast
    from Cons.IH Cons.prems obtain zs where zs: "flatten h rs = Some zs"
      "\<forall>x\<in>set zs. x < length h \<and> rank x < Suc k"
      "set zs = set rs \<union> {x. \<exists>r\<in>set rs. below h r x}"
      by auto
    have f: "flatten h (r # rs) = Some (r # ys @ zs)"
      using ys(1) zs(1) by (simp add: flatten_Cons)
    have b: "\<forall>x\<in>set (r # ys @ zs). x < length h \<and> rank x < Suc k"
      using r ys(2) zs(2) by auto
    have "set ys = {x. below h r x}"
      using ys(3) below_unfold [of h r] by auto
    then have "set (r # ys @ zs) = set (r # rs) \<union> {x. \<exists>q\<in>set (r # rs). below h q x}"
      using zs(3) by auto
    with f b show ?case by blast
  qed
qed

lemma allRoutes_wf:
  assumes "wf_down h rank" and "r < length h"
  shows "\<exists>xs. allRoutes h r = Some xs \<and> r \<notin> set xs \<and> set xs = {x. below h r x}"
proof -
  have "\<forall>c\<in>set (priv_routes (h ! r)). c < length h \<and> rank c < rank r"
    using assms by (simp add: wf_down_def)
  from flatten_wf [OF assms(1) this] obtain xs where xs:
    "flatten h (priv_routes (h ! r)) = Some xs" "\<forall>x\<in>set xs. x < length h \<and> rank x < rank r"
    "set xs = set (priv_routes (h ! r)) \<union> {x. \<exists>c\<in>set (priv_routes (h ! r)). below h c x}"
    by blast
  have "set xs = {x. below h r x}"
    using xs(3) below_unfold [of h r] by auto
  moreover have "r \<notin> set xs"
    using xs(2) by auto
  ultimately show ?thesis
    using xs(1) by (simp add: allRoutes_def)
qed

lemma find_first_Some:
  "find_first f xs = Some (Some x) \<Longrightarrow> x \<in> set xs \<and> f x = Some True"
  by (induction xs) (auto simp: Option.bind_eq_Some_conv split: if_splits)

lemma find_first_none:
  "\<forall>x\<in>set xs. f x = Some False \<Longrightarrow> find_first f xs = Some None"
  by (induction xs) auto

subsection \<open>Parent chains in a heap without cycles\<close>

lemma chain_exists:
  assumes "wf_up h rank"
  shows "n < length h \<Longrightarrow> \<exists>as. chain h n as"
proof (induction "rank n" arbitrary: n rule: less_induct)
  case less
  show ?case
  proof (cases "priv_parent (h ! n)")
    case None
    with less.prems have "chain h n [n]" by simp
    then show ?thesis by blast
  next
    case (Some p)
    with assms less.prems have p: "p < length h" "rank p < rank n"
      by (auto simp: wf_up_def)
    from less.hyps [OF p(2) p(1)] obtain as where as: "chain h p as" by blast
    with chain_hd [OF as] obtain as' where "as = p # as'" by (cases as) auto
    with as Some less.prems have "chain h n (n # as)" by simp
    then show ?thesis by blast
  qed
qed

lemma fullName_defined: "wf_up h rank \<Longrightarrow> n < length h \<Longrightarrow> \<exists>v. fullName h n = Some v"
  using chain_exists fullName_chain by blast

lemma wf_up_set_parent:
  assumes "wf_up h rank" and "n < length h" and "p < length h" and "rank p < rank n"
  shows "wf_up (set_parent h n p) rank"
  using assms unfolding wf_up_def
  by (simp add: length_set_parent parent_set_parent)

lemma routes_forEach_conflict:
  assumes "this < length h"
  shows "wf_up h rank \<Longrightarrow>
    \<forall>q\<in>set rs. q < length h \<and> (priv_parent (h ! q) = None \<longrightarrow> rank this < rank q) \<Longrightarrow>
    r \<in> set rs \<Longrightarrow> priv_parent (h ! r) = Some p \<Longrightarrow> p \<noteq> this \<Longrightarrow>
    \<exists>h' r' p' a b c. routes_forEach h this rs =
        Some (Inl (ConflictError
          (''Cannot add '' @ a @ '' to '' @ b @ '', because it already belongs to '' @ c)), h') \<and>
      r' \<in> set rs \<and> priv_parent (h' ! r') = Some p' \<and> p' \<noteq> this \<and>
      fullName h' r' = Some a \<and> fullName h' this = Some b \<and> fullName h' p' = Some c"
  using assms
proof (induction rs arbitrary: h)
  case Nil
  then show ?case by simp
next
  case (Cons q rs)
  from Cons.prems have q: "q < length h"
    and lone: "priv_parent (h ! q) = None \<longrightarrow> rank this < rank q"
    by auto
  show ?case
  proof (cases "\<exists>p'. priv_parent (h ! q) = Some p' \<and> p' \<noteq> this")
    case True
    then obtain p' where p': "priv_parent (h ! q) = Some p'" "p' \<noteq> this" by blast
    with Cons.prems(1) q have "p' < length h" by (auto simp: wf_up_def)
    with Cons.prems(1,6) q obtain a b c where
      "fullName h q = Some a" "fullName h this = Some b" "fullName h p' = Some c"
      using fullName_defined by meson
    with p' show ?thesis
      by (intro exI [of _ h] exI [of _ q] exI [of _ p'] exI [of _ a] exI [of _ b] exI [of _ c])
        simp
  next
    case False
    let ?h1 = "set_parent h q this"
    from False Cons.prems have "r \<noteq> q" by auto
    with Cons.prems have r: "r \<in> set rs" "r < length h" by auto
    have step: "routes_forEach h this (q # rs) = routes_forEach ?h1 this rs"
      using False by (auto split: option.splits)
    have "rank this < rank q"
    proof (cases "priv_parent (h ! q)")
      case None
      with lone show ?thesis by simp
    next
      case (Some p')
      with False have "priv_parent (h ! q) = Some this" by simp
      with Cons.prems(1) q show ?thesis by (simp add: wf_up_def)
    qed
    then have wf1: "wf_up ?h1 rank"
      using Cons.prems(1) q Cons.prems(6) by (intro wf_up_set_parent) auto
    have rest: "q' < length ?h1 \<and> (priv_parent (?h1 ! q') = None \<longrightarrow> rank this < rank q')"
      if "q' \<in> set rs" for q'
    proof -
      from that Cons.prems(2) have q': "q' < length h"
        "priv_parent (h ! q') = None \<longrightarrow> rank this < rank q'"
        by auto
      then show ?thesis
        using q by (cases "q' = q") (simp_all add: length_set_parent parent_set_parent)
    qed
    have par: "priv_parent (?h1 ! r) = Some p"
      using q(1) r(2) \<open>r \<noteq> q\<close> Cons.prems(4) by (simp add: parent_set_parent)
    have "\<exists>h' r' p' a b c. routes_forEach ?h1 this rs =
        Some (Inl (ConflictError
          (''Cannot add '' @ a @ '' to '' @ b @ '', because it already belongs to '' @ c)), h') \<and>
      r' \<in> set rs \<and> priv_parent (h' ! r') = Some p' \<and> p' \<noteq> this \<and>
      fullName h' r' = Some a \<and> fullName h' this = Some b \<and> fullName h' p' = Some c"
      using wf1 rest Cons.prems(5,6) r(1) par
      by (intro Cons.IH) (auto simp: length_set_parent)
    then obtain h' r' p' a b c where found: "routes_forEach ?h1 this rs =
        Some (Inl (ConflictError
          (''Cannot add '' @ a @ '' to '' @ b @ '', because it already belongs to '' @ c)), h')"
      "r' \<in> set rs" "priv_parent (h' ! r') = Some p'" "p' \<noteq> this"
      "fullName h' r' = Some a" "fullName h' this = Some b" "fullName h' p' = Some c"
      by blast
    show ?thesis
      unfolding step using found
      by (intro exI [of _ h'] exI [of _ r'] exI [of _ p'] exI [of _ a] exI [of _ b] exI [of _ c])
        simp
  qed
qed

lemma set_routes_conflict:
  assumes "wf_up h rank" and "this < length h"
    and "\<forall>q\<in>set rs. q < length h \<and> (priv_parent (h ! q) = None \<longrightarrow> rank this < rank q)"
    and "r \<in> set rs" and "priv_parent (h ! r) = Some p" and "p \<noteq> this"
  shows "\<exists>h' r' p' a b c. set_routes h this rs =
        Some (Inl (ConflictError
          (''Cannot add '' @ a @ '' to '' @ b @ '', because it already belongs to '' @ c)), h') \<and>
      r' \<in> set rs \<and> priv_parent (h' ! r') = Some p' \<and> p' \<noteq> this \<and>
      fullName h' r' = Some a \<and> fullName h' this = Some b \<and> fullName h' p' = Some c"
proof -
  let ?h0 = "h[this := (h ! this)\<lparr>priv_routes := rs\<rparr>]"
  have same: "priv_parent (?h0 ! m) = priv_parent (h ! m)" if "m < length h" for m
    using that by (simp add: nth_update_if)
  have wf0: "wf_up ?h0 rank"
    using assms(1) same by (simp add: wf_up_def)
  have r: "r < length h" using assms(3,4) by auto
  have "\<exists>h' r' p' a b c. routes_forEach ?h0 this rs =
        Some (Inl (ConflictError
          (''Cannot add '' @ a @ '' to '' @ b @ '', because it already belongs to '' @ c)), h') \<and>
      r' \<in> set rs \<and> priv_parent (h' ! r') = Some p' \<and> p' \<noteq> this \<and>
      fullName h' r' = Some a \<and> fullName h' this = Some b \<and> fullName h' p' = Some c"
    using wf0 assms(2,3,4,5,6) r same
    by (intro routes_forEach_conflict [where rank = rank and r = r and p = p]) auto
  then show ?thesis by (simp add: set_routes_def)
qed

lemma Route_new_conflict:
  assumes "wf_up (objs s) rank" and "\<forall>q\<in>set rs. q < length (objs s)"
    and "r \<in> set rs" and "priv_parent (objs s ! r) = Some p"
    and "cfg_routes config = Some rs"
  shows "\<exists>s' r' p' a b c. Route_new s config =
        Some (Inl (ConflictError
          (''Cannot add '' @ a @ '' to '' @ b @ '', because it already belongs to '' @ c)), s') \<and>
      r' \<in> set rs \<and> priv_parent (objs s' ! r') = Some p' \<and> p' \<noteq> length (objs s) \<and>
      fullName (objs s') r' = Some a \<and> fullName (objs s') (length (objs s)) = Some b \<and>
      fullName (objs s') p' = Some c"
proof -
  let ?new = "length (objs s)"
  let ?h0 = "objs s @
      [\<lparr>label = cfg_label config, name = cfg_name config, path = cfg_path config,
        meta = (case cfg_meta config of None \<Rightarrow> [] | Some m \<Rightarrow> m),
        priv_activePath = None, priv_parent = None, priv_routes = [],
        priv_onNewRoute = None\<rparr>]"
  let ?rank = "\<lambda>n. if n = ?new then 0 else Suc (rank n)"
  have r: "r < ?new" using assms(2,3) by auto
  then have p: "p < ?new" using assms(1,4) by (auto simp: wf_up_def)
  have "p' < ?new \<and> ?rank p' < ?rank n"
    if "n < ?new" "priv_parent (objs s ! n) = Some p'" for n p'
    using that assms(1) by (auto simp: wf_up_def)
  then have wf0: "wf_up ?h0 ?rank"
    by (auto simp: wf_up_def nth_append less_Suc_eq)
  have "\<exists>h' r' p' a b c. set_routes ?h0 ?new rs =
        Some (Inl (ConflictError
          (''Cannot add '' @ a @ '' to '' @ b @ '', because it already belongs to '' @ c)), h') \<and>
      r' \<in> set rs \<and> priv_parent (h' ! r') = Some p' \<and> p' \<noteq> ?new \<and>
      fullName h' r' = Some a \<and> fullName h' ?new = Some b \<and> fullName h' p' = Some c"
    using wf0 assms(2,3,4) r p
    by (intro set_routes_conflict [where rank = ?rank and r = r and p = p])
      (auto simp: nth_append)
  then obtain h' r' p' a b c where found: "set_routes ?h0 ?new rs =
        Some (Inl (ConflictError
          (''Cannot add '' @ a @ '' to '' @ b @ '', because it already belongs to '' @ c)), h')"
      "r' \<in> set rs" "priv_parent (h' ! r') = Some p'" "p' \<noteq> ?new"
      "fullName h' r' = Some a" "fullName h' ?new = Some b" "fullName h' p' = Some c"
    by blast
  have "Route_new s config =
      Some (Inl (ConflictError
        (''Cannot add '' @ a @ '' to '' @ b @ '', because it already belongs to '' @ c)),
        s\<lparr>objs := h'\<rparr>)"
    using found(1) assms(5) by (simp add: Route_new_def)
  with found(2-7) show ?thesis
    by (intro exI [of _ "s\<lparr>objs := h'\<rparr>"] exI [of _ r'] exI [of _ p'] exI [of _ a]
        exI [of _ b] exI [of _ c]) simp
qed

subsection \<open>The heap after adding\<close>

lemma grown_length: "grown h this cs h' \<Longrightarrow> length h \<le> length h'"
  unfolding grown_def by (elim conjE)

lemma grown_old:
  "grown h this cs h' \<Longrightarrow> m < length h \<Longrightarrow>
   h' ! m = (if m = this then (h ! m)\<lparr>priv_routes := priv_routes (h ! m) @ cs\<rparr> else h ! m)"
  unfolding grown_def by (elim conjE allE [of _ m]) (rule mp)

lemma grown_new:
  "grown h this cs h' \<Longrightarrow> length h \<le> m \<Longrightarrow> m < length h' \<Longrightarrow>
   (\<exists>p. priv_parent (h' ! m) = Some p \<and> p < m \<and> (p = this \<or> length h \<le> p)) \<and>
   (\<forall>c\<in>set (priv_routes (h' ! m)). m < c \<and> c < length h')"
  unfolding grown_def by blast

lemma grown_flat: "grown h this cs h' \<Longrightarrow> flatten h' cs = Some [length h..<length h']"
  unfolding grown_def by (elim conjE)

lemma grownI:
  assumes "length h \<le> length h'"
    and "\<And>m. m < length h \<Longrightarrow> h' ! m =
        (if m = this then (h ! m)\<lparr>priv_routes := priv_routes (h ! m) @ cs\<rparr> else h ! m)"
    and "\<And>m. length h \<le> m \<Longrightarrow> m < length h' \<Longrightarrow>
        (\<exists>p. priv_parent (h' ! m) = Some p \<and> p < m \<and> (p = this \<or> length h \<le> p)) \<and>
        (\<forall>c\<in>set (priv_routes (h' ! m)). m < c \<and> c < length h')"
    and "flatten h' cs = Some [length h..<length h']"
  shows "grown h this cs h'"
  unfolding grown_def using assms by blast

lemma grown_extends:
  assumes "grown h this cs h'"
  shows "extends_up h h'"
proof -
  have "priv_parent (h' ! m) = priv_parent (h ! m) \<and>
      priv_onNewRoute (h' ! m) = priv_onNewRoute (h ! m)" if "m < length h" for m
    using grown_old [OF assms that] by (cases "m = this") simp_all
  then show ?thesis
    using grown_length [OF assms] by (simp add: extends_up_def)
qed

lemma flatten_contains: "flatten h rs = Some xs \<Longrightarrow> set rs \<subseteq> set xs"
  by (induction rs arbitrary: xs) (auto simp: flatten_Nil flatten_Cons Option.bind_eq_Some_conv)

lemma flatten_append:
  "flatten h xs = Some a \<Longrightarrow> flatten h ys = Some b \<Longrightarrow> flatten h (xs @ ys) = Some (a @ b)"
  by (induction xs arbitrary: a) (auto simp: flatten_Nil flatten_Cons Option.bind_eq_Some_conv)

lemma flatten_frame:
  assumes "\<forall>m. a \<le> m \<and> m < b \<longrightarrow> priv_routes (h' ! m) = priv_routes (h ! m) \<and>
      (\<forall>c\<in>set (priv_routes (h ! m)). m < c \<and> c < b)"
  shows "\<forall>r\<in>set rs. a \<le> r \<and> r < b \<and> b - r < k \<Longrightarrow> flatten h' rs = flatten h rs"
proof (induction k arbitrary: rs)
  case 0
  then have "rs = []" by (cases rs) auto
  then show ?case by (simp add: flatten_Nil)
next
  case (Suc k)
  from Suc.prems show ?case
  proof (induction rs)
    case Nil
    then show ?case by (simp add: flatten_Nil)
  next
    case (Cons r rs)
    from Cons.prems have r: "a \<le> r" "r < b" "b - r < Suc k" by auto
    with assms have same: "priv_routes (h' ! r) = priv_routes (h ! r)"
      and kids: "\<forall>c\<in>set (priv_routes (h ! r)). r < c \<and> c < b"
      by blast+
    have "a \<le> c \<and> c < b \<and> b - c < k" if "c \<in> set (priv_routes (h ! r))" for c
    proof -
      from kids that have "r < c" "c < b" by blast+
      with r show ?thesis by linarith
    qed
    then have "\<forall>c\<in>set (priv_routes (h ! r)). a \<le> c \<and> c < b \<and> b - c < k"
      by blast
    then have "flatten h' (priv_routes (h ! r)) = flatten h (priv_routes (h ! r))"
      by (rule Suc.IH)
    moreover have "flatten h' rs = flatten h rs"
      using Cons.IH Cons.prems by simp
    ultimately show ?case
      using same by (simp add: flatten_Cons)
  qed
qed

lemma flatten_frame_range:
  assumes "\<forall>m. a \<le> m \<and> m < b \<longrightarrow> priv_routes (h' ! m) = priv_routes (h ! m) \<and>
      (\<forall>c\<in>set (priv_routes (h ! m)). m < c \<and> c < b)"
    and "\<forall>r\<in>set rs. a \<le> r \<and> r < b"
  shows "flatten h' rs = flatten h rs"
  using assms(2) by (intro flatten_frame [OF assms(1), of rs "Suc b"]) auto

lemma grown_refl: "grown h this [] h"
  by (rule grownI) (simp_all add: flatten_Nil)

lemma grown_trans:
  assumes "grown h this cs h'" and "grown h' this cs' h''" and "this < length h"
  shows "grown h this (cs @ cs') h''"
proof -
  have 1: "length h \<le> length h'"
    "\<And>m. m < length h \<Longrightarrow> h' ! m =
        (if m = this then (h ! m)\<lparr>priv_routes := priv_routes (h ! m) @ cs\<rparr> else h ! m)"
    "\<And>m. length h \<le> m \<Longrightarrow> m < length h' \<Longrightarrow>
        (\<exists>p. priv_parent (h' ! m) = Some p \<and> p < m \<and> (p = this \<or> length h \<le> p)) \<and>
        (\<forall>c\<in>set (priv_routes (h' ! m)). m < c \<and> c < length h')"
    "flatten h' cs = Some [length h..<length h']"
    using grown_length [OF assms(1)] grown_old [OF assms(1)] grown_new [OF assms(1)]
      grown_flat [OF assms(1)] by blast+
  have 2: "length h' \<le> length h''"
    "\<And>m. m < length h' \<Longrightarrow> h'' ! m =
        (if m = this then (h' ! m)\<lparr>priv_routes := priv_routes (h' ! m) @ cs'\<rparr> else h' ! m)"
    "\<And>m. length h' \<le> m \<Longrightarrow> m < length h'' \<Longrightarrow>
        (\<exists>p. priv_parent (h'' ! m) = Some p \<and> p < m \<and> (p = this \<or> length h' \<le> p)) \<and>
        (\<forall>c\<in>set (priv_routes (h'' ! m)). m < c \<and> c < length h'')"
    "flatten h'' cs' = Some [length h'..<length h'']"
    using grown_length [OF assms(2)] grown_old [OF assms(2)] grown_new [OF assms(2)]
      grown_flat [OF assms(2)] by blast+
  have old: "h'' ! m =
      (if m = this then (h ! m)\<lparr>priv_routes := priv_routes (h ! m) @ cs @ cs'\<rparr> else h ! m)"
    if "m < length h" for m
  proof (cases "m = this")
    case True
    from 1(2) [OF that] True
    have a: "h' ! this = (h ! this)\<lparr>priv_routes := priv_routes (h ! this) @ cs\<rparr>"
      by simp
    from 2(2) [of m] that 1(1) True
    have b: "h'' ! this = (h' ! this)\<lparr>priv_routes := priv_routes (h' ! this) @ cs'\<rparr>"
      by simp
    show ?thesis using True by (simp add: a b)
  next
    case False
    with 1(2) [OF that] 2(2) [of m] that 1(1) show ?thesis by simp
  qed
  have mid: "h'' ! m = h' ! m" if "length h \<le> m" "m < length h'" for m
    using that assms(3) 2(2) [of m] by simp
  have new: "(\<exists>p. priv_parent (h'' ! m) = Some p \<and> p < m \<and> (p = this \<or> length h \<le> p)) \<and>
        (\<forall>c\<in>set (priv_routes (h'' ! m)). m < c \<and> c < length h'')"
    if "length h \<le> m" "m < length h''" for m
  proof (cases "m < length h'")
    case True
    from 1(3) [OF that(1) True] obtain p where p:
      "priv_parent (h' ! m) = Some p" "p < m" "p = this \<or> length h \<le> p"
      and kids: "\<forall>c\<in>set (priv_routes (h' ! m)). m < c \<and> c < length h'"
      by blast
    have "m < c \<and> c < length h''" if "c \<in> set (priv_routes (h' ! m))" for c
    proof -
      from kids that have "m < c" "c < length h'" by blast+
      with 2(1) show ?thesis by linarith
    qed
    with p mid [OF that(1) True] show ?thesis by simp
  next
    case False
    then have le: "length h' \<le> m" by simp
    from 2(3) [OF le that(2)] obtain p where p:
      "priv_parent (h'' ! m) = Some p" "p < m" "p = this \<or> length h' \<le> p"
      and kids: "\<forall>c\<in>set (priv_routes (h'' ! m)). m < c \<and> c < length h''"
      by blast
    from p(3) 1(1) have "p = this \<or> length h \<le> p" by linarith
    with p(1,2) kids show ?thesis by blast
  qed
  have "set cs \<subseteq> set [length h..<length h']"
    using 1(4) by (rule flatten_contains)
  then have in_mid: "\<forall>r\<in>set cs. length h \<le> r \<and> r < length h'"
    by auto
  have "\<forall>m. length h \<le> m \<and> m < length h' \<longrightarrow>
      priv_routes (h'' ! m) = priv_routes (h' ! m) \<and>
      (\<forall>c\<in>set (priv_routes (h' ! m)). m < c \<and> c < length h')"
    using mid 1(3) by metis
  then have "flatten h'' cs = flatten h' cs"
    using in_mid by (rule flatten_frame_range)
  then have "flatten h'' (cs @ cs') = Some ([length h..<length h'] @ [length h'..<length h''])"
    using 1(4) 2(4) by (intro flatten_append) simp_all
  moreover have "[length h..<length h'] @ [length h'..<length h''] = [length h..<length h'']"
    using 1(1) 2(1) by (metis le_Suc_ex upt_add_eq_append)
  ultimately have flat: "flatten h'' (cs @ cs') = Some [length h..<length h'']"
    by simp
  show ?thesis
  proof (rule grownI)
    show "length h \<le> length h''" using 1(1) 2(1) by simp
  next
    fix m assume "m < length h"
    then show "h'' ! m =
        (if m = this then (h ! m)\<lparr>priv_routes := priv_routes (h ! m) @ cs @ cs'\<rparr> else h ! m)"
      by (rule old)
  next
    fix m assume "length h \<le> m" "m < length h''"
    then show "(\<exists>p. priv_parent (h'' ! m) = Some p \<and> p < m \<and> (p = this \<or> length h \<le> p)) \<and>
        (\<forall>c\<in>set (priv_routes (h'' ! m)). m < c \<and> c < length h'')"
      by (rule new)
  next
    show "flatten h'' (cs @ cs') = Some [length h..<length h'']" by (rule flat)
  qed
qed

lemma set_parent_nth:
  assumes "n \<noteq> p" and "n \<notin> set (priv_routes (h ! p))" and "n < length h" and "p < length h"
    and "m < length h"
  shows "set_parent h n p ! m =
    (if m = p then (h ! p)\<lparr>priv_routes := priv_routes (h ! p) @ [n]\<rparr>
     else if m = n then (h ! n)\<lparr>priv_parent := Some p\<rparr> else h ! m)"
  using assms by (simp add: set_parent_def Let_def nth_update_if)

lemma add_each_grows_from_add:
  assumes "\<And>d s as. d \<in> set ds \<Longrightarrow> chain (objs s) this as \<Longrightarrow>
      \<forall>c\<in>set (priv_routes (objs s ! this)). c < length (objs s) \<Longrightarrow>
      \<exists>s'. add s this d = Some (Inr (length (objs s)), s') \<and>
        grown (objs s) this [length (objs s)] (objs s')"
  shows "chain (objs s) this as \<Longrightarrow>
    \<forall>c\<in>set (priv_routes (objs s ! this)). c < length (objs s) \<Longrightarrow>
    \<exists>s' cs. add_each s this ds = Some (Inr (), s') \<and> grown (objs s) this cs (objs s')"
  using assms
proof (induction ds arbitrary: s)
  case Nil
  have "add_each s this [] = Some (Inr (), s)" by simp
  with grown_refl [of "objs s" this] show ?case by blast
next
  case (Cons d ds)
  let ?n = "length (objs s)"
  have this_lt: "this < ?n" using Cons.prems(1) chain_hd by blast
  from Cons.prems(3) [of d s as] Cons.prems(1,2)
  obtain s1 where s1: "add s this d = Some (Inr ?n, s1)" "grown (objs s) this [?n] (objs s1)"
    by auto
  have c1: "chain (objs s1) this as"
    using Cons.prems(1) grown_extends [OF s1(2)] by (rule chain_extends)
  have "set [?n] \<subseteq> set [?n..<length (objs s1)]"
    using grown_flat [OF s1(2)] by (rule flatten_contains)
  then have n_lt: "?n < length (objs s1)" by simp
  have "priv_routes (objs s1 ! this) = priv_routes (objs s ! this) @ [?n]"
    using grown_old [OF s1(2) this_lt] by simp
  then have v1: "\<forall>c\<in>set (priv_routes (objs s1 ! this)). c < length (objs s1)"
    using Cons.prems(2) n_lt by auto
  have "\<exists>s' cs. add_each s1 this ds = Some (Inr (), s') \<and> grown (objs s1) this cs (objs s')"
    using c1 v1 Cons.prems(3) by (intro Cons.IH) auto
  then obtain s2 cs where s2: "add_each s1 this ds = Some (Inr (), s2)"
    "grown (objs s1) this cs (objs s2)"
    by blast
  have "grown (objs s) this ([?n] @ cs) (objs s2)"
    using s1(2) s2(2) this_lt by (rule grown_trans)
  moreover have "add_each s this (d # ds) = Some (Inr (), s2)"
    using s1(1) s2(1) by simp
  ultimately show ?case by blast
qed

lemma add_grows:
  "chain (objs s) this as \<Longrightarrow> \<forall>c\<in>set (priv_routes (objs s ! this)). c < length (objs s) \<Longrightarrow>
   \<exists>s'. add s this d = Some (Inr (length (objs s)), s') \<and>
     grown (objs s) this [length (objs s)] (objs s')"
proof (induction d arbitrary: s this as)
  case (RouteDefinition dlabel dname dpath droutes dmeta)
  let ?d = "RouteDefinition dlabel dname dpath droutes dmeta"
  let ?h = "objs s"
  let ?n = "length ?h"
  let ?h1 = "?h @ [fresh ?d]"
  let ?s1 = "s\<lparr>objs := ?h1\<rparr>"
  have this_lt: "this < ?n" using RouteDefinition.prems(1) chain_hd by blast
  have c1: "chain (objs ?s1) ?n [?n]" by simp
  have v1: "\<forall>c\<in>set (priv_routes (objs ?s1 ! ?n)). c < length (objs ?s1)" by simp
  have "\<exists>s' cs. add_each ?s1 ?n droutes = Some (Inr (), s') \<and> grown (objs ?s1) ?n cs (objs s')"
    using c1 v1 by (rule add_each_grows_from_add [rotated]) (rule RouteDefinition.IH)
  then obtain s2 cs where s2: "add_each ?s1 ?n droutes = Some (Inr (), s2)"
    "grown ?h1 ?n cs (objs s2)"
    by auto
  let ?h2 = "objs s2"
  let ?h3 = "set_parent ?h2 ?n this"
  have res: "add s this ?d =
      Some (Inr ?n, s2\<lparr>objs := ?h3, calls := calls s2 @ notifications ?h as ?n\<rparr>)"
    using RouteDefinition.prems(1) s2(1) grown_extends [OF s2(2)]
    by (intro add_step) simp_all
  have len2: "Suc ?n \<le> length ?h2"
    using grown_length [OF s2(2)] by simp
  have at_this: "?h2 ! this = ?h ! this"
    using grown_old [OF s2(2), of this] this_lt by (simp add: nth_append)
  have at_n: "?h2 ! ?n = (fresh ?d)\<lparr>priv_routes := cs\<rparr>"
    using grown_old [OF s2(2), of ?n] by simp
  have at_old: "?h2 ! m = ?h ! m" if "m < ?n" for m
    using grown_old [OF s2(2), of m] that by (simp add: nth_append)
  have "set cs \<subseteq> set [length ?h1..<length ?h2]"
    using grown_flat [OF s2(2)] by (rule flatten_contains)
  then have cs: "\<forall>c\<in>set cs. Suc ?n \<le> c \<and> c < length ?h2"
    by auto
  have fresh_n: "?n \<notin> set (priv_routes (?h2 ! this))"
    using RouteDefinition.prems(2) at_this by auto
  have at3: "?h3 ! m =
      (if m = this then (?h ! this)\<lparr>priv_routes := priv_routes (?h ! this) @ [?n]\<rparr>
       else if m = ?n then (?h2 ! ?n)\<lparr>priv_parent := Some this\<rparr> else ?h2 ! m)"
    if "m < length ?h2" for m
    using set_parent_nth [of ?n this ?h2 m] fresh_n this_lt len2 that at_this by simp
  have kept: "\<forall>m. Suc ?n \<le> m \<and> m < length ?h2 \<longrightarrow>
      priv_routes (?h3 ! m) = priv_routes (?h2 ! m) \<and>
      (\<forall>c\<in>set (priv_routes (?h2 ! m)). m < c \<and> c < length ?h2)"
  proof (intro allI impI)
    fix m assume m: "Suc ?n \<le> m \<and> m < length ?h2"
    then have "?h3 ! m = ?h2 ! m"
      using at3 [of m] this_lt by simp
    moreover have "\<forall>c\<in>set (priv_routes (?h2 ! m)). m < c \<and> c < length ?h2"
      using grown_new [OF s2(2), of m] m by simp
    ultimately show "priv_routes (?h3 ! m) = priv_routes (?h2 ! m) \<and>
        (\<forall>c\<in>set (priv_routes (?h2 ! m)). m < c \<and> c < length ?h2)"
      by simp
  qed
  have "flatten ?h3 cs = flatten ?h2 cs"
    using kept cs by (rule flatten_frame_range)
  then have flat_cs: "flatten ?h3 cs = Some [Suc ?n..<length ?h2]"
    using grown_flat [OF s2(2)] by simp
  have "priv_routes (?h3 ! ?n) = cs"
    using at3 [of ?n] at_n len2 this_lt by simp
  then have flat: "flatten ?h3 [?n] = Some [?n..<length ?h3]"
    using flat_cs len2 by (simp add: flatten_Cons flatten_Nil length_set_parent upt_conv_Cons)
  have "grown ?h this [?n] ?h3"
  proof (rule grownI)
    show "?n \<le> length ?h3" using len2 by (simp add: length_set_parent)
  next
    fix m assume "m < ?n"
    then show "?h3 ! m =
        (if m = this then (?h ! m)\<lparr>priv_routes := priv_routes (?h ! m) @ [?n]\<rparr> else ?h ! m)"
      using at3 [of m] at_old [of m] len2 by simp
  next
    fix m assume m: "?n \<le> m" "m < length ?h3"
    then have m2: "m < length ?h2" by (simp add: length_set_parent)
    show "(\<exists>p. priv_parent (?h3 ! m) = Some p \<and> p < m \<and> (p = this \<or> ?n \<le> p)) \<and>
        (\<forall>c\<in>set (priv_routes (?h3 ! m)). m < c \<and> c < length ?h3)"
    proof (cases "m = ?n")
      case True
      have "?h3 ! ?n = (fresh ?d)\<lparr>priv_routes := cs, priv_parent := Some this\<rparr>"
        using at3 [of ?n] at_n len2 this_lt by simp
      with True this_lt cs show ?thesis
        by (auto simp: length_set_parent)
    next
      case False
      with m have gt: "Suc ?n \<le> m" by simp
      then have same: "?h3 ! m = ?h2 ! m"
        using at3 [of m] m2 this_lt by simp
      from grown_new [OF s2(2), of m] gt m2 obtain p where p:
        "priv_parent (?h2 ! m) = Some p" "p < m" "p = ?n \<or> Suc ?n \<le> p"
        and kids: "\<forall>c\<in>set (priv_routes (?h2 ! m)). m < c \<and> c < length ?h2"
        by auto
      from p(3) have "p = this \<or> ?n \<le> p" by linarith
      with p(1,2) kids same show ?thesis
        by (simp add: length_set_parent)
    qed
  next
    show "flatten ?h3 [?n] = Some [?n..<length ?h3]" by (rule flat)
  qed
  with res show ?case by simp
qed

lemma chain_to_root:
  assumes "priv_parent (h ! root) = None" and "root < length h"
    and "\<And>m. root < m \<Longrightarrow> m < length h \<Longrightarrow>
      \<exists>p. priv_parent (h ! m) = Some p \<and> root \<le> p \<and> p < m"
  shows "root \<le> n \<Longrightarrow> n < length h \<Longrightarrow> \<exists>as. chain h n as \<and> last as = root"
proof (induction n rule: less_induct)
  case (less n)
  show ?case
  proof (cases "n = root")
    case True
    with assms(1,2) have "chain h n [n] \<and> last [n] = root" by simp
    then show ?thesis by blast
  next
    case False
    with less.prems assms(3) [of n] obtain p where p:
      "priv_parent (h ! n) = Some p" "root \<le> p" "p < n"
      by auto
    with less.IH [of p] less.prems obtain as where as: "chain h p as" "last as = root"
      by auto
    from chain_hd [OF as(1)] obtain as' where "as = p # as'" by (cases as) auto
    with as p less.prems have "chain h n (n # as) \<and> last (n # as) = root" by simp
    then show ?thesis by blast
  qed
qed

lemma Router_built:
  "\<exists>s cs. Router s0 ds = Some (Inr (length (objs s0)), s) \<and>
     grown (objs s0 @ [blank]) (length (objs s0)) cs (objs s)"
proof -
  let ?root = "length (objs s0)"
  let ?s1 = "s0\<lparr>objs := objs s0 @ [blank]\<rparr>"
  have new: "Route_new s0
      \<lparr>cfg_label = [], cfg_name = [], cfg_path = [], cfg_meta = None,
       cfg_routes = None, cfg_parent = None\<rparr> = Some (Inr ?root, ?s1)"
    by (simp add: Route_new_plain blank_def)
  have c1: "chain (objs ?s1) ?root [?root]" by (simp add: blank_def)
  have v1: "\<forall>c\<in>set (priv_routes (objs ?s1 ! ?root)). c < length (objs ?s1)"
    by (simp add: blank_def)
  have "\<exists>s' cs. add_each ?s1 ?root ds = Some (Inr (), s') \<and> grown (objs ?s1) ?root cs (objs s')"
    using c1 v1 by (rule add_each_grows_from_add [rotated]) (rule add_grows)
  then obtain s cs where s: "add_each ?s1 ?root ds = Some (Inr (), s)"
    "grown (objs s0 @ [blank]) ?root cs (objs s)"
    by auto
  have "Router s0 ds = Some (Inr ?root, s)"
    using new s(1) by (simp add: Router_def)
  with s(2) show ?thesis by blast
qed

text \<open>What the last lemma says about the tree under the new root.\<close>

lemma Router_tree:
  "\<exists>s. Router s0 ds = Some (Inr (length (objs s0)), s) \<and>
     length (objs s0) < length (objs s) \<and>
     priv_parent (objs s ! length (objs s0)) = None \<and>
     allRoutes (objs s) (length (objs s0)) = Some [Suc (length (objs s0))..<length (objs s)] \<and>
     (\<forall>n. length (objs s0) \<le> n \<and> n < length (objs s) \<longrightarrow>
        (\<exists>as. chain (objs s) n as \<and> last as = length (objs s0)))"
proof -
  let ?root = "length (objs s0)"
  from Router_built [of s0 ds] obtain s cs where s:
    "Router s0 ds = Some (Inr ?root, s)" "grown (objs s0 @ [blank]) ?root cs (objs s)"
    by blast
  let ?h = "objs s"
  have len: "Suc ?root \<le> length ?h"
    using grown_length [OF s(2)] by simp
  have at_root: "?h ! ?root = blank\<lparr>priv_routes := cs\<rparr>"
    using grown_old [OF s(2), of ?root] by (simp add: blank_def)
  then have par: "priv_parent (?h ! ?root) = None"
    by (simp add: blank_def)
  have all: "allRoutes ?h ?root = Some [Suc ?root..<length ?h]"
    using grown_flat [OF s(2)] at_root by (simp add: allRoutes_def)
  have up: "\<exists>p. priv_parent (?h ! m) = Some p \<and> ?root \<le> p \<and> p < m"
    if "?root < m" "m < length ?h" for m
  proof -
    from grown_new [OF s(2), of m] that obtain p where
      "priv_parent (?h ! m) = Some p" "p < m" "p = ?root \<or> Suc ?root \<le> p"
      by auto
    then show ?thesis by auto
  qed
  have "\<exists>as. chain ?h n as \<and> last as = ?root" if "?root \<le> n \<and> n < length ?h" for n
    using chain_to_root [OF par _ up, of n] that len by simp
  with s(1) len par all show ?thesis by auto
qed

subsection \<open>Searching with a node's own values\<close>

lemma chain_unique: "chain h n as \<Longrightarrow> chain h n bs \<Longrightarrow> as = bs"
proof (induction h n as arbitrary: bs rule: chain.induct)
  case (1 h n)
  then show ?case by simp
next
  case (2 h n a)
  show ?case
  proof (cases bs)
    case Nil
    with 2 show ?thesis by simp
  next
    case (Cons b bs')
    with 2 show ?thesis by (cases bs') auto
  qed
next
  case (3 h n a b cs)
  show ?case
  proof (cases bs)
    case Nil
    with 3 show ?thesis by simp
  next
    case (Cons x bs')
    show ?thesis
    proof (cases bs')
      case Nil
      with 3 Cons show ?thesis by simp
    next
      case (Cons y ys)
      with 3 \<open>bs = x # bs'\<close> show ?thesis by auto
    qed
  qed
qed

lemma join_empty_sep: "join [] xs = concat xs"
  by (induction "[] :: string" xs rule: join.induct) auto

lemma join_nonempty_concat: "join_nonempty [] xs = concat xs"
  by (induction xs) (auto simp: join_nonempty_def join_empty_sep)

lemma every_key_five:
  "fullName h k = Some a \<Longrightarrow> fullPath h k = Some b \<Longrightarrow>
   every_key h k [(Name, v1), (FullName, v2), (Path, v3), (FullPath, v4), (Label, v5)] =
     Some (v1 = name (h ! k) \<and> v2 = a \<and> v3 = path (h ! k) \<and> v4 = b \<and> v5 = label (h ! k))"
  by simp

lemma find_first_at:
  "i < length xs \<Longrightarrow> f (xs ! i) = Some True \<Longrightarrow> \<forall>j<i. f (xs ! j) = Some False \<Longrightarrow>
   find_first f xs = Some (Some (xs ! i))"
proof (induction xs arbitrary: i)
  case Nil
  then show ?case by simp
next
  case (Cons x xs)
  show ?case
  proof (cases i)
    case 0
    with Cons.prems show ?thesis by simp
  next
    case (Suc k)
    with Cons.prems have "f x = Some False" by auto
    moreover have "find_first f xs = Some (Some (xs ! k))"
      using Cons.prems Suc by (intro Cons.IH) auto
    ultimately show ?thesis using Suc by simp
  qed
qed

section \<open>Properties\<close>

lemma demo_built:
  "Router empty_store demo_definitions = Some (Inr 0, \<lparr>objs = demo_heap, calls = []\<rparr>)"
  by code_simp

text \<open>
  C1. The property: \<^verbatim>\<open>matches\<close> answers true exactly when the full path of the route,
  read as fixed runs and dynamic runs, uses up the candidate, each dynamic run taking
  one character or more. The code does not keep to it. The route \<^verbatim>\<open>pair\<close> has the
  full path \<^verbatim>\<open>/:a/:b\<close>; the candidate \<^verbatim>\<open>/x\<close> has nothing for the second dynamic
  run, and the matching of the specification refuses it, yet \<^verbatim>\<open>matches\<close> answers
  true; it does the same for \<^verbatim>\<open>/x/\<close>, where the second run would be empty.
\<close>

theorem matches_accepts_missing_segment:
  "Router empty_store slug_definitions = Some (Inr 0, \<lparr>objs = slug_heap, calls = []\<rparr>) \<and>
   fullPath slug_heap 2 = Some ''/:a/:b'' \<and>
   matches slug_heap 2 ''/x'' = Some (Inr True) \<and> \<not> spec_match ''/:a/:b'' ''/x'' \<and>
   matches slug_heap 2 ''/x/'' = Some (Inr True) \<and> \<not> spec_match ''/:a/:b'' ''/x/''"
  by code_simp

text \<open>The three candidates that the specification lists for \<^verbatim>\<open>/classes/:classSlug\<close>.\<close>

lemma matches_class_examples:
  "fullPath slug_heap 1 = Some ''/classes/:classSlug'' \<and>
   matches slug_heap 1 ''/classes/server'' = Some (Inr True) \<and>
   matches slug_heap 1 ''/classes/server/extra'' = Some (Inr False) \<and>
   matches slug_heap 1 ''/classes'' = Some (Inr False) \<and>
   spec_match ''/classes/:classSlug'' ''/classes/server'' \<and>
   \<not> spec_match ''/classes/:classSlug'' ''/classes/server/extra'' \<and>
   \<not> spec_match ''/classes/:classSlug'' ''/classes''"
  by code_simp



text \<open>
  C3, as amended. Let the active page of a node be the page at index \<open>i\<close> of its
  pages, and let no page before it have the same full name. Then the previous page
  is nothing when \<open>i\<close> is \<open>0\<close> and the page at \<open>i - 1\<close> otherwise, and the next page is
  nothing when \<open>i\<close> is the last index and the page at \<open>i + 1\<close> otherwise.
\<close>

theorem neighbours_of_active_page:
  assumes "pages h r = Some ps" and "activePage h r = Some (Inr (Some P))"
    and "i < length ps" and "ps ! i = P" and "fullName h P = Some v"
    and "\<forall>j<i. \<exists>w. fullName h (ps ! j) = Some w \<and> w \<noteq> v"
  shows "previousPage h r = Some (Inr (if i = 0 then None else Some (ps ! (i - 1)))) \<and>
         nextPage h r = Some (Inr (if i = length ps - 1 then None else Some (ps ! (i + 1))))"
proof -
  have m: "find_fullName h P ps = Some (Some P)"
    using find_fullName_first [of i ps h v P] assms by simp
  have "\<forall>j<i. ps ! j \<noteq> P"
    using assms(5,6) by force
  then have ix: "indexOf ps P = int i"
    using assms(3,4) by (intro indexOf_first) auto
  have "previousPage h r = Some (Inr (if i = 0 then None else Some (ps ! (i - 1))))"
    using assms(1,2,3) m ix by (simp add: previousPage_def elem_at_pred)
  moreover have "i + 1 < length ps \<longleftrightarrow> i \<noteq> length ps - 1"
    using assms(3) by auto
  then have "nextPage h r = Some (Inr (if i = length ps - 1 then None else Some (ps ! (i + 1))))"
    using assms(1,2,3) m ix by (simp add: nextPage_def elem_at_succ)
  ultimately show ?thesis by simp
qed

theorem neighbours_of_active_page_witness:
  "pages demo_active 0 = Some [1, 4, 5, 7] \<and> activePage demo_active 0 = Some (Inr (Some 5)) \<and>
   (2::nat) < length [1, 4, 5, 7::nat] \<and> [1, 4, 5, 7] ! 2 = (5::nat) \<and>
   fullName demo_active 5 = Some ''docs.getting-started.installation'' \<and>
   fullName demo_active ([1, 4, 5, 7] ! 0) = Some ''index'' \<and>
   fullName demo_active ([1, 4, 5, 7] ! 1) = Some ''docs.getting-started.introduction'' \<and>
   previousPage demo_active 0 = Some (Inr (Some 4)) \<and>
   nextPage demo_active 0 = Some (Inr (Some 7))"
proof -
  have a: "pages demo_active 0 = Some [1, 4, 5, 7]" by code_simp
  have b: "activePage demo_active 0 = Some (Inr (Some 5))" by code_simp
  have c: "(2::nat) < length [1, 4, 5, 7::nat]" "[1, 4, 5, 7] ! 2 = (5::nat)" by simp_all
  have d: "fullName demo_active 5 = Some ''docs.getting-started.installation''" by code_simp
  have e0: "fullName demo_active ([1, 4, 5, 7] ! 0) = Some ''index''" by code_simp
  have e1: "fullName demo_active ([1, 4, 5, 7] ! 1) = Some ''docs.getting-started.introduction''"
    by code_simp
  have e: "\<forall>j<2. \<exists>w. fullName demo_active ([1, 4, 5, 7] ! j) = Some w \<and>
      w \<noteq> ''docs.getting-started.installation''"
    using e0 e1 by (simp add: less_Suc_eq numeral_2_eq_2)
  from neighbours_of_active_page [OF a b c d e] a b c d e0 e1 show ?thesis by simp
qed

theorem neighbours_of_active_page_counterexample:
  "Router empty_store twin_definitions = Some (Inr 0, \<lparr>objs = twin_heap, calls = []\<rparr>) \<and>
   set_activePath twin_heap 0 ''/b'' = (Inr (), twin_active) \<and>
   pages twin_active 0 = Some [1, 2, 3] \<and>
   activePage twin_active 0 = Some (Inr (Some 2)) \<and>
   [1, 2, 3] ! 1 = (2::nat) \<and>
   previousPage twin_active 0 = Some (Inr None) \<and>
   previousPage twin_active 0 \<noteq> Some (Inr (Some ([1, 2, 3] ! (1 - 1)))) \<and>
   nextPage twin_active 0 = Some (Inr (Some 2)) \<and>
   nextPage twin_active 0 \<noteq> Some (Inr (Some ([1, 2, 3] ! (1 + 1))))"
  by code_simp

text \<open>
  C4. \<^verbatim>\<open>new Router(definitions)\<close> returns, and in the tree it built every node \<open>n\<close>
  under the root has a parent chain \<open>as\<close> that ends in the root. The full name of \<open>n\<close>
  is the names along the chain, from the root down to \<open>n\<close>, joined by a dot with the
  empty ones left out, and the full path of \<open>n\<close> is the paths along the chain put
  together.
\<close>

theorem full_names_follow_the_ancestors:
  "\<exists>root s xs. Router s0 definitions = Some (Inr root, s) \<and>
     allRoutes (objs s) root = Some xs \<and>
     (\<forall>n\<in>set xs. \<exists>as. chain (objs s) n as \<and> last as = root \<and>
        fullName (objs s) n =
          Some (join ''.'' (filter (\<lambda>x. x \<noteq> []) (map (\<lambda>a. name (objs s ! a)) (rev as)))) \<and>
        fullPath (objs s) n = Some (concat (map (\<lambda>a. path (objs s ! a)) (rev as))))"
proof -
  let ?root = "length (objs s0)"
  from Router_tree [of s0 definitions] obtain s where s:
    "Router s0 definitions = Some (Inr ?root, s)"
    "allRoutes (objs s) ?root = Some [Suc ?root..<length (objs s)]"
    "\<And>n. ?root \<le> n \<and> n < length (objs s) \<Longrightarrow> \<exists>as. chain (objs s) n as \<and> last as = ?root"
    by blast
  have "\<exists>as. chain (objs s) n as \<and> last as = ?root \<and>
        fullName (objs s) n =
          Some (join ''.'' (filter (\<lambda>x. x \<noteq> []) (map (\<lambda>a. name (objs s ! a)) (rev as)))) \<and>
        fullPath (objs s) n = Some (concat (map (\<lambda>a. path (objs s ! a)) (rev as)))"
    if "n \<in> set [Suc ?root..<length (objs s)]" for n
  proof -
    from that s(3) [of n] obtain as where as: "chain (objs s) n as" "last as = ?root"
      by auto
    from fullName_chain [OF as(1)] fullPath_chain [OF as(1)] as show ?thesis
      unfolding join_nonempty_concat unfolding join_nonempty_def by blast
  qed
  with s(1,2) show ?thesis by blast
qed

theorem full_names_follow_the_ancestors_witness:
  "Router empty_store demo_definitions = Some (Inr 0, \<lparr>objs = demo_heap, calls = []\<rparr>) \<and>
   allRoutes demo_heap 0 = Some [1, 2, 3, 4, 5, 6, 7] \<and>
   chain demo_heap 5 [5, 3, 2, 0] \<and>
   fullName demo_heap 5 = Some ''docs.getting-started.installation'' \<and>
   fullPath demo_heap 5 = Some ''/docs/getting-started/installation''"
proof -
  have all: "allRoutes demo_heap 0 = Some [1, 2, 3, 4, 5, 6, 7]"
    by code_simp
  have c: "chain demo_heap 5 [5, 3, 2, 0]"
    by code_simp
  from full_names_follow_the_ancestors [of empty_store demo_definitions] demo_built
  obtain xs where xs: "allRoutes demo_heap 0 = Some xs"
    and names: "\<forall>n\<in>set xs. \<exists>as. chain demo_heap n as \<and> last as = 0 \<and>
        fullName demo_heap n =
          Some (join ''.'' (filter (\<lambda>x. x \<noteq> []) (map (\<lambda>a. name (demo_heap ! a)) (rev as)))) \<and>
        fullPath demo_heap n = Some (concat (map (\<lambda>a. path (demo_heap ! a)) (rev as)))"
    by auto
  from xs all have "xs = [1, 2, 3, 4, 5, 6, 7]" by simp
  then have "5 \<in> set xs" by simp
  with names obtain as where as: "chain demo_heap 5 as"
    "fullName demo_heap 5 =
       Some (join ''.'' (filter (\<lambda>x. x \<noteq> []) (map (\<lambda>a. name (demo_heap ! a)) (rev as))))"
    "fullPath demo_heap 5 = Some (concat (map (\<lambda>a. path (demo_heap ! a)) (rev as)))"
    by blast
  from chain_unique [OF as(1) c] have "as = [5, 3, 2, 0]" .
  with as(2,3) have "fullName demo_heap 5 = Some ''docs.getting-started.installation''"
    "fullPath demo_heap 5 = Some ''/docs/getting-started/installation''"
    by (simp_all add: demo_heap_def node_def)
  with demo_built all c show ?thesis by simp
qed

text \<open>
  C5. The property: making a route that has a parent the child of another node raises
  the conflict error, with both parents named, and does not go through silently.
  The code keeps to it where children are assigned, and not in the setter of
  \<^verbatim>\<open>parent\<close>, which checks nothing. On the small tree the route \<^verbatim>\<open>class\<close> has the
  parent \<^verbatim>\<open>api\<close>. After \<^verbatim>\<open>class.parent = index\<close>, which has no way to fail, its parent
  is \<^verbatim>\<open>index\<close> and it is a child of both \<^verbatim>\<open>index\<close> and \<^verbatim>\<open>api\<close>. Assigning it as
  the children of \<^verbatim>\<open>index\<close> instead raises the error.
\<close>

theorem parent_setter_gives_second_parent:
  "Router empty_store demo_definitions = Some (Inr 0, \<lparr>objs = demo_heap, calls = []\<rparr>) \<and>
   name (demo_heap ! 7) = ''class'' \<and> name (demo_heap ! 6) = ''api'' \<and>
   name (demo_heap ! 1) = ''index'' \<and>
   priv_parent (demo_heap ! 7) = Some 6 \<and> priv_routes (demo_heap ! 1) = [] \<and>
   priv_parent (set_parent demo_heap 7 1 ! 7) = Some 1 \<and>
   priv_routes (set_parent demo_heap 7 1 ! 1) = [7] \<and>
   priv_routes (set_parent demo_heap 7 1 ! 6) = [7] \<and>
   map_option fst (set_routes demo_heap 1 [7]) =
     Some (Inl (ConflictError ''Cannot add api.class to index, because it already belongs to api''))"
  by code_simp

text \<open>
  What the checked paths do, in general. Let the parent links of the heap have no
  cycle, and let a list of routes hold a route whose parent is some node \<open>p\<close>.
  Assigning the list as the \<^verbatim>\<open>routes\<close> of another node \<open>this\<close> throws, and so does
  building a new route with the list as its \<^verbatim>\<open>routes\<close>: the result is the conflict
  error, and its message names, by their full names, a route of the list, the node it
  was to be added to and the parent that route has and keeps. For the setter, the
  routes of the list that have no parent yet must not be above \<open>this\<close>.
\<close>

lemma children_assignment_is_refused:
  assumes "wf_up h rank" and "\<forall>q\<in>set rs. q < length h"
    and "r \<in> set rs" and "priv_parent (h ! r) = Some p"
  shows "(this < length h \<and> p \<noteq> this \<and>
      (\<forall>q\<in>set rs. priv_parent (h ! q) = None \<longrightarrow> rank this < rank q) \<longrightarrow>
      (\<exists>h' r' p' a b c. set_routes h this rs =
        Some (Inl (ConflictError
          (''Cannot add '' @ a @ '' to '' @ b @ '', because it already belongs to '' @ c)), h') \<and>
        r' \<in> set rs \<and> priv_parent (h' ! r') = Some p' \<and> p' \<noteq> this \<and>
        fullName h' r' = Some a \<and> fullName h' this = Some b \<and> fullName h' p' = Some c)) \<and>
    (objs s = h \<and> cfg_routes config = Some rs \<longrightarrow>
      (\<exists>s' r' p' a b c. Route_new s config =
        Some (Inl (ConflictError
          (''Cannot add '' @ a @ '' to '' @ b @ '', because it already belongs to '' @ c)), s') \<and>
        r' \<in> set rs \<and> priv_parent (objs s' ! r') = Some p' \<and> p' \<noteq> length h \<and>
        fullName (objs s') r' = Some a \<and> fullName (objs s') (length h) = Some b \<and>
        fullName (objs s') p' = Some c))"
proof (intro conjI impI)
  assume a: "this < length h \<and> p \<noteq> this \<and>
      (\<forall>q\<in>set rs. priv_parent (h ! q) = None \<longrightarrow> rank this < rank q)"
  then have "\<forall>q\<in>set rs. q < length h \<and> (priv_parent (h ! q) = None \<longrightarrow> rank this < rank q)"
    using assms(2) by blast
  with a assms show "\<exists>h' r' p' a b c. set_routes h this rs =
        Some (Inl (ConflictError
          (''Cannot add '' @ a @ '' to '' @ b @ '', because it already belongs to '' @ c)), h') \<and>
        r' \<in> set rs \<and> priv_parent (h' ! r') = Some p' \<and> p' \<noteq> this \<and>
        fullName h' r' = Some a \<and> fullName h' this = Some b \<and> fullName h' p' = Some c"
    by (intro set_routes_conflict [where rank = rank and r = r and p = p]) blast+
next
  assume a: "objs s = h \<and> cfg_routes config = Some rs"
  with assms show "\<exists>s' r' p' a b c. Route_new s config =
        Some (Inl (ConflictError
          (''Cannot add '' @ a @ '' to '' @ b @ '', because it already belongs to '' @ c)), s') \<and>
        r' \<in> set rs \<and> priv_parent (objs s' ! r') = Some p' \<and> p' \<noteq> length h \<and>
        fullName (objs s') r' = Some a \<and> fullName (objs s') (length h) = Some b \<and>
        fullName (objs s') p' = Some c"
    using Route_new_conflict [of s rank rs r p config] by blast
qed

text \<open>
  The lemma at work: \<^verbatim>\<open>docs\<close> cannot become a child of \<^verbatim>\<open>getting-started\<close>, which is
  below it, nor of a new route.
\<close>

lemma children_assignment_is_refused_example:
  "(2::nat) < length demo_heap \<and> priv_parent (demo_heap ! 2) = Some 0 \<and>
   (3::nat) < length demo_heap \<and> (0::nat) \<noteq> 3 \<and>
   map_option fst (set_routes demo_heap 3 [2]) =
     Some (Inl (ConflictError ''Cannot add docs to docs.getting-started, because it already belongs to '')) \<and>
   map_option fst
     (Route_new \<lparr>objs = demo_heap, calls = []\<rparr>
        \<lparr>cfg_label = ''Other'', cfg_name = ''other'', cfg_path = ''/other'', cfg_meta = None,
         cfg_routes = Some [2], cfg_parent = None\<rparr>) =
     Some (Inl (ConflictError ''Cannot add docs to other, because it already belongs to ''))"
proof -
  let ?s = "\<lparr>objs = demo_heap, calls = []\<rparr>"
  let ?config = "\<lparr>cfg_label = ''Other'', cfg_name = ''other'', cfg_path = ''/other'',
      cfg_meta = None, cfg_routes = Some [2], cfg_parent = None\<rparr>"
  have wf: "wf_up demo_heap demo_depth"
    by (simp add: wf_up_def demo_heap_def node_def demo_depth_def All_less_Suc)
  have a: "(2::nat) < length demo_heap" "(3::nat) < length demo_heap"
    by (simp_all add: demo_heap_def)
  have b: "priv_parent (demo_heap ! 2) = Some 0" "(0::nat) \<noteq> 3"
    by (simp_all add: demo_heap_def node_def)
  have e: "map_option fst (set_routes demo_heap 3 [2]) =
     Some (Inl (ConflictError ''Cannot add docs to docs.getting-started, because it already belongs to ''))"
    "map_option fst (Route_new ?s ?config) =
     Some (Inl (ConflictError ''Cannot add docs to other, because it already belongs to ''))"
    by code_simp+
  have q: "\<forall>q\<in>set [2]. q < length demo_heap"
    using a by simp
  have m: "(2::nat) \<in> set [2]"
    by simp
  have setter: "3 < length demo_heap \<and> (0::nat) \<noteq> 3 \<and>
      (\<forall>q\<in>set [2]. priv_parent (demo_heap ! q) = None \<longrightarrow> demo_depth 3 < demo_depth q)"
    using a b by simp
  have maker: "objs ?s = demo_heap \<and> cfg_routes ?config = Some [2]"
    by simp
  from children_assignment_is_refused [OF wf q m b(1), of 3 ?s ?config] setter maker
  have "set_routes demo_heap 3 [2] \<noteq> None \<and> Route_new ?s ?config \<noteq> None"
    by fastforce
  with a b e show ?thesis by simp
qed

text \<open>
  C6, as amended. \<^verbatim>\<open>new Router(definitions)\<close> returns, and for every node under the
  root, \<^verbatim>\<open>find\<close> on the root with that node's name, full name, path, full path and
  label returns that node, provided that no node listed before it by \<^verbatim>\<open>allRoutes\<close> has
  the same five values.
\<close>

theorem find_own_values:
  "\<exists>root s xs. Router s0 definitions = Some (Inr root, s) \<and>
     allRoutes (objs s) root = Some xs \<and>
     (\<forall>i<length xs. \<exists>fn fp. fullName (objs s) (xs ! i) = Some fn \<and>
        fullPath (objs s) (xs ! i) = Some fp \<and>
        ((\<forall>j<i. \<not> same_values (objs s) (xs ! j) (xs ! i)) \<longrightarrow>
           find_route (objs s) root
             [(Name, name (objs s ! (xs ! i))), (FullName, fn),
              (Path, path (objs s ! (xs ! i))), (FullPath, fp),
              (Label, label (objs s ! (xs ! i)))] = Some (Some (xs ! i))))"
proof -
  let ?root = "length (objs s0)"
  from Router_tree [of s0 definitions] obtain s where s:
    "Router s0 definitions = Some (Inr ?root, s)"
    "allRoutes (objs s) ?root = Some [Suc ?root..<length (objs s)]"
    "\<And>n. ?root \<le> n \<and> n < length (objs s) \<Longrightarrow> \<exists>as. chain (objs s) n as \<and> last as = ?root"
    by blast
  let ?h = "objs s"
  let ?xs = "[Suc ?root..<length ?h]"
  have defined: "\<exists>a b. fullName ?h (?xs ! j) = Some a \<and> fullPath ?h (?xs ! j) = Some b"
    if "j < length ?xs" for j
  proof -
    from that have "?root \<le> ?xs ! j \<and> ?xs ! j < length ?h" by simp
    from s(3) [OF this] obtain as where "chain ?h (?xs ! j) as" by blast
    with fullName_chain fullPath_chain show ?thesis by blast
  qed
  have "\<exists>fn fp. fullName ?h (?xs ! i) = Some fn \<and> fullPath ?h (?xs ! i) = Some fp \<and>
        ((\<forall>j<i. \<not> same_values ?h (?xs ! j) (?xs ! i)) \<longrightarrow>
           find_route ?h ?root
             [(Name, name (?h ! (?xs ! i))), (FullName, fn),
              (Path, path (?h ! (?xs ! i))), (FullPath, fp),
              (Label, label (?h ! (?xs ! i)))] = Some (Some (?xs ! i)))"
    if i: "i < length ?xs" for i
  proof -
    from defined [OF i] obtain fn fp where own:
      "fullName ?h (?xs ! i) = Some fn" "fullPath ?h (?xs ! i) = Some fp"
      by blast
    let ?c = "[(Name, name (?h ! (?xs ! i))), (FullName, fn),
              (Path, path (?h ! (?xs ! i))), (FullPath, fp),
              (Label, label (?h ! (?xs ! i)))]"
    have "find_route ?h ?root ?c = Some (Some (?xs ! i))"
      if other: "\<forall>j<i. \<not> same_values ?h (?xs ! j) (?xs ! i)"
    proof -
      have hit: "every_key ?h (?xs ! i) ?c = Some True"
        by (subst every_key_five [OF own]) simp
      have miss: "every_key ?h (?xs ! j) ?c = Some False" if j: "j < i" for j
      proof -
        from j i have "j < length ?xs" by simp
        from defined [OF this] obtain a b where ab:
          "fullName ?h (?xs ! j) = Some a" "fullPath ?h (?xs ! j) = Some b"
          by blast
        from other j have "\<not> same_values ?h (?xs ! j) (?xs ! i)" by blast
        with ab own show ?thesis
          unfolding every_key_five [OF ab] same_values_def by auto
      qed
      have "find_first (\<lambda>route. every_key ?h route ?c) ?xs = Some (Some (?xs ! i))"
        using i hit miss by (intro find_first_at) blast+
      with s(2) show ?thesis by (simp add: find_route_def)
    qed
    with own show ?thesis by blast
  qed
  with s(1,2) show ?thesis by blast
qed

theorem find_own_values_witness:
  "Router empty_store demo_definitions = Some (Inr 0, \<lparr>objs = demo_heap, calls = []\<rparr>) \<and>
   allRoutes demo_heap 0 = Some [1, 2, 3, 4, 5, 6, 7] \<and>
   (1::nat) < length [1, 2, 3, 4, 5, 6, 7::nat] \<and>
   \<not> same_values demo_heap ([1, 2, 3, 4, 5, 6, 7] ! 0) ([1, 2, 3, 4, 5, 6, 7] ! 1) \<and>
   find_route demo_heap 0
     [(Name, ''docs''), (FullName, ''docs''), (Path, ''/docs''), (FullPath, ''/docs''),
      (Label, ''Documentation'')] = Some (Some 2)"
proof -
  have all: "allRoutes demo_heap 0 = Some [1, 2, 3, 4, 5, 6, 7]"
    by code_simp
  have differ: "\<not> same_values demo_heap ([1, 2, 3, 4, 5, 6, 7] ! 0) ([1, 2, 3, 4, 5, 6, 7] ! 1)"
    by (simp add: same_values_def demo_heap_def node_def)
  have vals: "name (demo_heap ! 2) = ''docs''" "path (demo_heap ! 2) = ''/docs''"
    "label (demo_heap ! 2) = ''Documentation''"
    by (simp_all add: demo_heap_def node_def)
  have full: "fullName demo_heap 2 = Some ''docs''" "fullPath demo_heap 2 = Some ''/docs''"
    by code_simp+
  from find_own_values [of empty_store demo_definitions] demo_built
  obtain xs where xs: "allRoutes demo_heap 0 = Some xs"
    and found: "\<forall>i<length xs. \<exists>fn fp. fullName demo_heap (xs ! i) = Some fn \<and>
        fullPath demo_heap (xs ! i) = Some fp \<and>
        ((\<forall>j<i. \<not> same_values demo_heap (xs ! j) (xs ! i)) \<longrightarrow>
           find_route demo_heap 0
             [(Name, name (demo_heap ! (xs ! i))), (FullName, fn),
              (Path, path (demo_heap ! (xs ! i))), (FullPath, fp),
              (Label, label (demo_heap ! (xs ! i)))] = Some (Some (xs ! i)))"
    by auto
  from xs all have xs_eq: "xs = [1, 2, 3, 4, 5, 6, 7]" by simp
  have "\<forall>j<1. \<not> same_values demo_heap (xs ! j) (xs ! 1)"
    using differ xs_eq by simp
  moreover from found xs_eq obtain fn fp where own:
    "fullName demo_heap (xs ! 1) = Some fn" "fullPath demo_heap (xs ! 1) = Some fp"
    "(\<forall>j<1. \<not> same_values demo_heap (xs ! j) (xs ! 1)) \<longrightarrow>
       find_route demo_heap 0
         [(Name, name (demo_heap ! (xs ! 1))), (FullName, fn),
          (Path, path (demo_heap ! (xs ! 1))), (FullPath, fp),
          (Label, label (demo_heap ! (xs ! 1)))] = Some (Some (xs ! 1))"
    by force
  ultimately have "find_route demo_heap 0
         [(Name, name (demo_heap ! (xs ! 1))), (FullName, fn),
          (Path, path (demo_heap ! (xs ! 1))), (FullPath, fp),
          (Label, label (demo_heap ! (xs ! 1)))] = Some (Some (xs ! 1))"
    by blast
  moreover have "xs ! 1 = 2" using xs_eq by simp
  moreover have "fn = ''docs''" "fp = ''/docs''"
    using own(1,2) full xs_eq by simp_all
  ultimately have "find_route demo_heap 0
     [(Name, ''docs''), (FullName, ''docs''), (Path, ''/docs''), (FullPath, ''/docs''),
      (Label, ''Documentation'')] = Some (Some 2)"
    using vals by simp
  with demo_built all differ show ?thesis by simp
qed

theorem find_own_values_counterexample:
  "Router empty_store pair_definitions = Some (Inr 0, \<lparr>objs = pair_heap, calls = []\<rparr>) \<and>
   allRoutes pair_heap 0 = Some [1, 2] \<and>
   name (pair_heap ! 2) = ''twin'' \<and> fullName pair_heap 2 = Some ''twin'' \<and>
   path (pair_heap ! 2) = ''/twin'' \<and> fullPath pair_heap 2 = Some ''/twin'' \<and>
   label (pair_heap ! 2) = ''Twin'' \<and>
   find_route pair_heap 0
     [(Name, ''twin''), (FullName, ''twin''), (Path, ''/twin''), (FullPath, ''/twin''),
      (Label, ''Twin'')] = Some (Some 1) \<and>
   find_route pair_heap 0
     [(Name, ''twin''), (FullName, ''twin''), (Path, ''/twin''), (FullPath, ''/twin''),
      (Label, ''Twin'')] \<noteq> Some (Some 2) \<and>
   name (pair_heap ! 0) = [] \<and> fullName pair_heap 0 = Some [] \<and>
   path (pair_heap ! 0) = [] \<and> fullPath pair_heap 0 = Some [] \<and>
   label (pair_heap ! 0) = [] \<and>
   find_route pair_heap 0
     [(Name, []), (FullName, []), (Path, []), (FullPath, []), (Label, [])] = Some None \<and>
   find_route pair_heap 0
     [(Name, []), (FullName, []), (Path, []), (FullPath, []), (Label, [])] \<noteq> Some (Some 0)"
  by code_simp

text \<open>
  C7. Setting \<^verbatim>\<open>activePath\<close> on a node that has a parent raises the invalid-operation
  error and leaves the heap as it was; setting it on a node without parent stores the
  value there. A read on any node \<open>n\<close> gives what is stored in the node \<open>r\<close> that ends
  the parent chain of \<open>n\<close>, so after the root was set every node below reads the new
  value.
\<close>

theorem activePath_held_by_root:
  "(priv_parent (h ! n) = Some p \<longrightarrow>
      set_activePath h n v =
        (Inl (InvalidOperation ''activePath can only be set on the router, not a child route''), h)) \<and>
   (priv_parent (h ! r) = None \<longrightarrow>
      set_activePath h r v = (Inr (), h[r := (h ! r)\<lparr>priv_activePath := Some v\<rparr>])) \<and>
   (chain h n as \<and> last as = r \<longrightarrow>
      activePath h n = Some (priv_activePath (h ! r)) \<and>
      activePath (h[r := (h ! r)\<lparr>priv_activePath := Some v\<rparr>]) n = Some (Some v))"
proof (intro conjI impI)
  assume "priv_parent (h ! n) = Some p"
  then show "set_activePath h n v =
      (Inl (InvalidOperation ''activePath can only be set on the router, not a child route''), h)"
    by (simp add: set_activePath_def)
next
  assume "priv_parent (h ! r) = None"
  then show "set_activePath h r v = (Inr (), h[r := (h ! r)\<lparr>priv_activePath := Some v\<rparr>])"
    by (simp add: set_activePath_def)
next
  assume a: "chain h n as \<and> last as = r"
  then show "activePath h n = Some (priv_activePath (h ! r))"
    using activePath_chain by blast
next
  let ?h' = "h[r := (h ! r)\<lparr>priv_activePath := Some v\<rparr>]"
  assume a: "chain h n as \<and> last as = r"
  have "extends_up h ?h'"
    by (simp add: extends_up_def nth_update_if)
  with a have c: "chain ?h' n as"
    using chain_extends by blast
  from a have "as \<noteq> []" using chain_hd by blast
  then have "r < length h"
    using a chain_bound [of h n as] by auto
  then have "priv_activePath (?h' ! last as) = Some v"
    using a by simp
  with activePath_chain [OF c] show "activePath ?h' n = Some (Some v)"
    by simp
qed

theorem activePath_held_by_root_witness:
  "priv_parent (demo_heap ! 4) = Some 3 \<and>
   set_activePath demo_heap 4 ''/thanks'' =
     (Inl (InvalidOperation ''activePath can only be set on the router, not a child route''),
      demo_heap) \<and>
   priv_parent (demo_heap ! 0) = None \<and>
   chain demo_heap 4 [4, 3, 2, 0] \<and> last [4, 3, 2, 0] = (0::nat) \<and>
   activePath demo_heap 4 = Some None \<and>
   activePath (snd (set_activePath demo_heap 0 ''/thanks'')) 4 = Some (Some ''/thanks'')"
proof -
  have a: "priv_parent (demo_heap ! 4) = Some 3"
    by (simp add: demo_heap_def node_def)
  have b: "priv_parent (demo_heap ! 0) = None"
    by (simp add: demo_heap_def node_def)
  have c: "chain demo_heap 4 [4, 3, 2, 0] \<and> last [4, 3, 2, 0] = (0::nat)"
    by (simp add: demo_heap_def node_def)
  have d: "priv_activePath (demo_heap ! 0) = None"
    by (simp add: demo_heap_def node_def)
  from activePath_held_by_root [of demo_heap 4 3 "''/thanks''" 0 "[4, 3, 2, 0]"] a b c d
  show ?thesis by simp
qed

text \<open>
  C8. \<^verbatim>\<open>matches\<close> raises the invalid-argument error exactly when the candidate contains
  the marker \<^verbatim>\<open>:\<close>, whatever the route; it raises no other error, so for such a
  candidate no boolean is produced.
\<close>

theorem matches_raises_iff_marker:
  "((\<exists>msg. matches h r s = Some (Inl (InvalidArgument msg))) = (CHR '':'' \<in> set s)) \<and>
   ((\<exists>e. matches h r s = Some (Inl e)) = (CHR '':'' \<in> set s))"
  by (auto simp: matches_def Option.bind_eq_Some_conv)

text \<open>
  C9, as amended. On a root whose active path was never assigned, reading the active
  page raises the type error when the root has a page and gives nothing when it has
  none. Once a string without \<^verbatim>\<open>:\<close> has been assigned, and every page has a full path,
  the read returns: it gives the first page that matches the string without its
  final slashes, or nothing.
\<close>

theorem activePage_defined:
  "(priv_parent (h ! r) = None \<and> priv_activePath (h ! r) = None \<and> pages h r = Some ps \<longrightarrow>
      activePage h r = Some (if ps = [] then Inr None else Inl TypeError)) \<and>
   (priv_parent (h ! r) = None \<and> priv_activePath (h ! r) = Some ap \<and> CHR '':'' \<notin> set ap \<and>
    pages h r = Some ps \<and> (\<forall>p\<in>set ps. fullPath h p \<noteq> None) \<longrightarrow>
      activePage h r =
        Some (Inr (List.find (\<lambda>p. matches h p (strip_slashes ap) = Some (Inr True)) ps)))"
proof (intro conjI impI)
  assume a: "priv_parent (h ! r) = None \<and> priv_activePath (h ! r) = None \<and> pages h r = Some ps"
  then have "activePath h r = Some None"
    using activePath_root [of h r] by simp
  then show "activePage h r = Some (if ps = [] then Inr None else Inl TypeError)"
    using a find_active_unset [of h r ps] by (simp add: activePage_def)
next
  assume a: "priv_parent (h ! r) = None \<and> priv_activePath (h ! r) = Some ap \<and>
    CHR '':'' \<notin> set ap \<and> pages h r = Some ps \<and> (\<forall>p\<in>set ps. fullPath h p \<noteq> None)"
  then have "activePath h r = Some (Some ap)"
    using activePath_root [of h r] by simp
  then show "activePage h r =
      Some (Inr (List.find (\<lambda>p. matches h p (strip_slashes ap) = Some (Inr True)) ps))"
    using a find_active_set [of h r ap ps] by (simp add: activePage_def)
qed

theorem activePage_defined_witness:
  "priv_parent (demo_heap ! 0) = None \<and> priv_activePath (demo_heap ! 0) = None \<and>
   pages demo_heap 0 = Some [1, 4, 5, 7] \<and>
   activePage demo_heap 0 = Some (Inl TypeError) \<and>
   priv_activePath (demo_active ! 0) = Some ''/docs/getting-started/installation/'' \<and>
   CHR '':'' \<notin> set ''/docs/getting-started/installation/'' \<and>
   map (fullPath demo_active) [1, 4, 5, 7] =
     [Some ''/'', Some ''/docs/getting-started/introduction'',
      Some ''/docs/getting-started/installation'', Some ''/api/classes/:classSlug''] \<and>
   activePage demo_active 0 = Some (Inr (Some 5))"
proof -
  have a: "priv_parent (demo_heap ! 0) = None \<and> priv_activePath (demo_heap ! 0) = None \<and>
      pages demo_heap 0 = Some [1, 4, 5, 7]"
    by code_simp
  have b: "priv_parent (demo_active ! 0) = None \<and>
      priv_activePath (demo_active ! 0) = Some ''/docs/getting-started/installation/'' \<and>
      CHR '':'' \<notin> set ''/docs/getting-started/installation/'' \<and>
      pages demo_active 0 = Some [1, 4, 5, 7] \<and>
      (\<forall>p\<in>set [1, 4, 5, 7]. fullPath demo_active p \<noteq> None)"
    by code_simp
  have c: "List.find (\<lambda>p. matches demo_active p
        (strip_slashes ''/docs/getting-started/installation/'') = Some (Inr True)) [1, 4, 5, 7]
      = Some 5"
    by code_simp
  have d: "map (fullPath demo_active) [1, 4, 5, 7] =
     [Some ''/'', Some ''/docs/getting-started/introduction'',
      Some ''/docs/getting-started/installation'', Some ''/api/classes/:classSlug'']"
    by code_simp
  from activePage_defined [of demo_heap 0 "[1, 4, 5, 7]"]
    activePage_defined [of demo_active 0 "[1, 4, 5, 7]" "''/docs/getting-started/installation/''"]
    a b c d
  show ?thesis by simp
qed

theorem activePage_unset_counterexample:
  "Router empty_store [] = Some (Inr 0, \<lparr>objs = [node [] [] [] None []], calls = []\<rparr>) \<and>
   priv_activePath ([node [] [] [] None []] ! 0) = None \<and>
   activePage [node [] [] [] None []] 0 = Some (Inr None) \<and>
   set_activePath demo_heap 0 ''/api/classes/:classSlug'' = (Inr (), demo_dynamic) \<and>
   activePage demo_dynamic 0 =
     Some (Inl (InvalidArgument
       ''Cannot match /api/classes/:classSlug, it needs to be a valid URL with no dynamic segments''))"
  by code_simp

text \<open>
  C10. In a heap whose child arrays have no cycle, \<^verbatim>\<open>allRoutes\<close> of a node \<open>r\<close> returns,
  and lists exactly the nodes below \<open>r\<close>, never \<open>r\<close> itself. So \<^verbatim>\<open>pages\<close> are the
  childless nodes below \<open>r\<close>, none for a leaf; \<^verbatim>\<open>find\<close> and \<^verbatim>\<open>routerFor\<close> only answer
  with a node below \<open>r\<close> that fits, and answer nothing when no node below \<open>r\<close> fits,
  whether or not \<open>r\<close> itself does.
\<close>

theorem searches_range_below_the_node:
  assumes "wf_down h rank" and "r < length h"
  shows "\<exists>xs. allRoutes h r = Some xs \<and> r \<notin> set xs \<and> set xs = {x. below h r x} \<and>
     pages h r = Some (filter (\<lambda>x. priv_routes (h ! x) = []) xs) \<and>
     (priv_routes (h ! r) = [] \<longrightarrow> pages h r = Some []) \<and>
     (\<forall>c x. find_route h r c = Some (Some x) \<longrightarrow> x \<in> set xs \<and> every_key h x c = Some True) \<and>
     (\<forall>c. (\<forall>x\<in>set xs. every_key h x c = Some False) \<longrightarrow>
        find_route h r c = Some None \<and> has h r c = Some False) \<and>
     (\<forall>fp x. routerFor h r fp = Some (Some x) \<longrightarrow> x \<in> set xs \<and> fullPath h x = Some fp) \<and>
     (\<forall>fp. (\<forall>x\<in>set xs. \<exists>q. fullPath h x = Some q \<and> q \<noteq> fp) \<longrightarrow>
        routerFor h r fp = Some None)"
proof -
  from allRoutes_wf [OF assms] obtain xs where xs:
    "allRoutes h r = Some xs" "r \<notin> set xs" "set xs = {x. below h r x}"
    by blast
  have p: "pages h r = Some (filter (\<lambda>x. priv_routes (h ! x) = []) xs)"
    using xs(1) by (simp add: pages_def)
  have leaf: "pages h r = Some []" if "priv_routes (h ! r) = []"
    using that by (simp add: pages_def allRoutes_def flatten_Nil)
  have f1: "x \<in> set xs \<and> every_key h x c = Some True"
    if "find_route h r c = Some (Some x)" for c x
    using that xs(1) find_first_Some [of "\<lambda>route. every_key h route c" xs x]
    by (simp add: find_route_def)
  have f2: "find_route h r c = Some None \<and> has h r c = Some False"
    if "\<forall>x\<in>set xs. every_key h x c = Some False" for c
    using that xs(1) find_first_none [of xs "\<lambda>route. every_key h route c"]
    by (simp add: find_route_def has_def)
  have g1: "x \<in> set xs \<and> fullPath h x = Some fp"
    if "routerFor h r fp = Some (Some x)" for fp x
    using that xs(1) find_first_Some [of "\<lambda>route. map_option (\<lambda>p. p = fp) (fullPath h route)" xs x]
    by (auto simp: routerFor_def)
  have g2: "routerFor h r fp = Some None"
    if "\<forall>x\<in>set xs. \<exists>q. fullPath h x = Some q \<and> q \<noteq> fp" for fp
  proof -
    from that have "\<forall>x\<in>set xs. map_option (\<lambda>p. p = fp) (fullPath h x) = Some False"
      by auto
    then show ?thesis
      using xs(1) find_first_none [of xs "\<lambda>route. map_option (\<lambda>p. p = fp) (fullPath h route)"]
      by (simp add: routerFor_def)
  qed
  from xs p leaf f1 f2 g1 g2 show ?thesis by blast
qed

theorem searches_range_below_the_node_witness:
  "(0::nat) < length demo_heap \<and>
   allRoutes demo_heap 0 = Some [1, 2, 3, 4, 5, 6, 7] \<and>
   allRoutes demo_heap 2 = Some [3, 4, 5] \<and>
   priv_routes (demo_heap ! 4) = [] \<and> pages demo_heap 4 = Some [] \<and>
   find_route demo_heap 2 [(Name, ''docs'')] = Some None \<and>
   find_route demo_heap 0 [(Name, ''docs'')] = Some (Some 2) \<and>
   fullPath demo_heap 2 = Some ''/docs'' \<and>
   routerFor demo_heap 2 ''/docs'' = Some None \<and>
   routerFor demo_heap 0 ''/docs'' = Some (Some 2)"
proof -
  have wf: "wf_down demo_heap (\<lambda>n. 8 - n)"
    by (simp add: wf_down_def demo_heap_def node_def All_less_Suc)
  have l: "(0::nat) < length demo_heap"
    by (simp add: demo_heap_def)
  have e: "allRoutes demo_heap 0 = Some [1, 2, 3, 4, 5, 6, 7] \<and>
      allRoutes demo_heap 2 = Some [3, 4, 5] \<and>
      priv_routes (demo_heap ! 4) = [] \<and> pages demo_heap 4 = Some [] \<and>
      find_route demo_heap 2 [(Name, ''docs'')] = Some None \<and>
      find_route demo_heap 0 [(Name, ''docs'')] = Some (Some 2) \<and>
      fullPath demo_heap 2 = Some ''/docs'' \<and>
      routerFor demo_heap 2 ''/docs'' = Some None \<and>
      routerFor demo_heap 0 ''/docs'' = Some (Some 2)"
    by code_simp
  from searches_range_below_the_node [OF wf l]
  obtain xs where "allRoutes demo_heap 0 = Some xs" "0 \<notin> set xs"
    by blast
  with l e show ?thesis by simp
qed

end
